theory Spec2Isabelle
  imports Main "HOL-Library.Word"
begin

unbundle bit_operations_syntax

section \<open>vm.js: the bounded interpreter and the Snake syscalls\<close>

text \<open>
  The class \<open>PPUVM\<close> is embedded as a record that is passed through every method and
  returned updated. JavaScript numbers that the code keeps in a fixed width (\<open>>>> 0\<close>,
  \<open>& 0xFFFF\<close>) are words of that width; board coordinates are \<open>int\<close>; counters that
  only grow are \<open>nat\<close>. The fields \<open>ram\<close>, \<open>truthTable\<close> and \<open>strings\<close> are never read
  by \<open>runFrame\<close> or by a syscall and are left out. The host callback \<open>onDraw\<close> only
  observes the render state; the field \<open>draws\<close> counts its invocations.
\<close>

type_synonym u8 = "8 word"
type_synonym u16 = "16 word"
type_synonym u32 = "32 word"

text \<open>A grid cell \<open>{x, y}\<close>.\<close>
type_synonym cell = "int \<times> int"

record vm_header =
  entryPoint :: u32
  osId :: u32

record render_state =
  gameOver :: bool
  score :: nat
  high :: nat
  boardW :: int
  boardH :: int
  cellPx :: int
  boardX :: int
  boardY :: int
  apple :: cell
  snake :: "cell list"
  dir :: nat
  pendingDir :: nat
  lastTick :: u32
  paused :: bool

record vm =
  header :: vm_header
  code :: "u8 list"
  pc :: nat
  cycleBudget :: nat
  halted :: bool
  ioCmd :: u16
  ioTick :: u32
  modeBits :: u8
  prng :: u32
  render :: render_state
  draws :: nat

text \<open>
  What a method can throw, or compute outside the integers this embedding has:
  \<open>TypeError\<close> is JavaScript's own exception on reading a property of \<open>undefined\<close>
  (the head of an empty snake); \<open>NaNCoordinate\<close> stands for the runs in which
  JavaScript computes \<open>NaN\<close> (a remainder by a zero board size, a direction index outside
  the four-entry step tables) and stores it as a coordinate, which \<open>int\<close> cannot hold.
\<close>
datatype vmError = TypeError | NaNCoordinate

text \<open>The state \<open>new PPUVM({header, bytecode, ...})\<close> builds.\<close>
definition newPPUVM :: "vm_header \<Rightarrow> u8 list \<Rightarrow> vm" where
  "newPPUVM h bytecode =
     \<lparr> header = h, code = bytecode, pc = unat (entryPoint h), cycleBudget = 50000,
       halted = False, ioCmd = 0, ioTick = 0, modeBits = 0, prng = 0xC0FFEE01,
       render = \<lparr> gameOver = False, score = 0, high = 0, boardW = 20, boardH = 20,
                  cellPx = 18, boardX = 40, boardY = 72, apple = (10, 10),
                  snake = [(10, 12), (10, 13), (10, 14)], dir = 0, pendingDir = 0,
                  lastTick = 0xFFFFFFFF, paused = False \<rparr>,
       draws = 0 \<rparr>"

text \<open>\<open>setIO({cmd, tick, modeBits})\<close>: the host writes the three input registers.\<close>
definition setIO :: "int \<Rightarrow> int \<Rightarrow> int \<Rightarrow> vm \<Rightarrow> vm" where
  "setIO cmd tick mb v = v\<lparr> ioCmd := of_int cmd, ioTick := of_int tick, modeBits := of_int mb \<rparr>"

text \<open>\<open>this.onDraw?.(this.render)\<close>.\<close>
definition onDraw :: "vm \<Rightarrow> vm" where
  "onDraw v = v\<lparr> draws := draws v + 1 \<rparr>"

text \<open>\<open>randU32\<close>: xorshift32 on the PRNG register; returns the new register value.\<close>
definition randU32 :: "vm \<Rightarrow> u32 \<times> vm" where
  "randU32 v =
     (let x0 = prng v;
          x1 = x0 XOR push_bit 13 x0;
          x2 = x1 XOR drop_bit 17 x1;
          x3 = x2 XOR push_bit 5 x2
      in (x3, v\<lparr> prng := x3 \<rparr>))"

text \<open>The key \<open>p.x + p.y*W\<close> under which a cell is stored in the occupancy sets.\<close>
definition cellKey :: "int \<Rightarrow> cell \<Rightarrow> int" where
  "cellKey W p = fst p + snd p * W"

text \<open>
  The first loop of \<open>spawnApple\<close>: up to 2048 random candidates. The result is \<open>Some\<close>
  when a free cell was found (the method returns), \<open>None\<close> with the advanced PRNG when
  all tries hit the snake. \<open>r % W\<close> has a non-negative dividend, so it is \<open>mod \<bar>W\<bar>\<close>;
  the caller has excluded \<open>W = 0\<close> and \<open>H = 0\<close>.
\<close>
function spawnTries :: "nat \<Rightarrow> int set \<Rightarrow> vm \<Rightarrow> vm option \<times> vm" where
  "spawnTries tries occ v =
     (if tries < 2048 then
        (let (r, v1) = randU32 v;
             W = boardW (render v1); H = boardH (render v1);
             x = uint r mod \<bar>W\<bar>;
             y = uint (drop_bit 16 r) mod \<bar>H\<bar>;
             k = x + y * W
         in if k \<notin> occ then (Some (v1\<lparr> render := (render v1)\<lparr> apple := (x, y) \<rparr> \<rparr>), v1)
            else spawnTries (tries + 1) occ v1)
      else (None, v))"
  by pat_completeness auto
termination
  by (relation "measure (\<lambda>(tries, occ, v). 2048 - tries)") auto

declare spawnTries.simps [simp del]

text \<open>The cells in the order the fallback scan of \<open>spawnApple\<close> visits them: row-major.\<close>
definition scanCells :: "int \<Rightarrow> int \<Rightarrow> cell list" where
  "scanCells W H = concat (map (\<lambda>y. map (\<lambda>x. (x, y)) [0 .. W - 1]) [0 .. H - 1])"

definition spawnApple :: "vm \<Rightarrow> vmError + vm" where
  "spawnApple v =
     (let W = boardW (render v); H = boardH (render v);
          occ = set (map (cellKey W) (snake (render v)))
      in if W = 0 \<or> H = 0 then Inl NaNCoordinate
         else case spawnTries 0 occ v of
                (Some v', _) \<Rightarrow> Inr v'
              | (None, v1) \<Rightarrow>
                  (case find (\<lambda>c. cellKey W c \<notin> occ) (scanCells W H) of
                     Some c \<Rightarrow> Inr (v1\<lparr> render := (render v1)\<lparr> apple := c \<rparr> \<rparr>)
                   | None \<Rightarrow> Inr v1))"

definition snakeInit :: "vm \<Rightarrow> vmError + vm" where
  "snakeInit v =
     (let r = (render v)\<lparr> boardW := 20, boardH := 20, dir := 0, pendingDir := 0,
                           paused := True, gameOver := False, score := 0,
                           snake := [(10, 12), (10, 13), (10, 14)] \<rparr>;
          v1 = v\<lparr> render := r, prng := 0xA5A5A5A5 XOR osId (header v) \<rparr>
      in case spawnApple v1 of
           Inl e \<Rightarrow> Inl e
         | Inr v2 \<Rightarrow> Inr (onDraw v2))"

text \<open>\<open>({1:0,4:1,2:2,3:3})[cmd] ?? this.render.pendingDir\<close>.\<close>
definition wantDir :: "u16 \<Rightarrow> nat \<Rightarrow> nat" where
  "wantDir cmd pd =
     (if cmd = 1 then 0 else if cmd = 4 then 1 else if cmd = 2 then 2
      else if cmd = 3 then 3 else pd)"

text \<open>
  The part of \<open>snakeTick\<close> after the command switch: the pause and game-over gate, then
  one move of the snake.
\<close>
definition snakeAdvance :: "vm \<Rightarrow> vmError + vm" where
  "snakeAdvance v =
     (let r = render v in
      if paused r \<or> gameOver r then Inr (onDraw v)
      else
        (case snake r of
           [] \<Rightarrow> Inl TypeError
         | head # _ \<Rightarrow>
             (let W = boardW r; H = boardH r;
                  d = pendingDir r;
                  r1 = r\<lparr> dir := d \<rparr>
              in if 4 \<le> d then Inl NaNCoordinate
                 else
                   (let dx = [0, 1, 0, -1] ! d;
                        dy = [-1, 0, 1, 0] ! d;
                        nx = fst head + dx;
                        ny = snd head + dy
                    in if nx < 0 \<or> ny < 0 \<or> W \<le> nx \<or> H \<le> ny
                       then Inr (onDraw (v\<lparr> render := r1\<lparr> gameOver := True \<rparr> \<rparr>))
                       else
                         (let ap = apple r1;
                              willGrow = (nx = fst ap \<and> ny = snd ap);
                              bodySet0 = set (map (cellKey W) (snake r1));
                              bodySet = (if \<not> willGrow
                                         then bodySet0 - {cellKey W (last (snake r1))}
                                         else bodySet0)
                          in if nx + ny * W \<in> bodySet
                             then Inr (onDraw (v\<lparr> render := r1\<lparr> gameOver := True \<rparr> \<rparr>))
                             else
                               (let r2 = r1\<lparr> snake := (nx, ny) # snake r1 \<rparr>
                                in if willGrow
                                   then
                                     (let s = score r2 + 1;
                                          r3 = r2\<lparr> score := s,
                                                    high := (if high r2 < s then s else high r2) \<rparr>
                                      in case spawnApple (v\<lparr> render := r3 \<rparr>) of
                                           Inl e \<Rightarrow> Inl e
                                         | Inr v' \<Rightarrow> Inr (onDraw v'))
                                   else Inr (onDraw (v\<lparr> render :=
                                               r2\<lparr> snake := butlast (snake r2) \<rparr> \<rparr>))))))))"

definition snakeTick :: "vm \<Rightarrow> vmError + vm" where
  "snakeTick v =
     (let t = ioTick v in
      if t = lastTick (render v) then Inr v
      else
        (let v1 = v\<lparr> render := (render v)\<lparr> lastTick := t \<rparr> \<rparr>;
             r1 = render v1;
             cmd = ioCmd v1
         in if cmd = 5
            then snakeAdvance (if \<not> gameOver r1
                               then v1\<lparr> render := r1\<lparr> paused := \<not> paused r1 \<rparr> \<rparr>
                               else v1)
            else if cmd = 6
            then (case snakeInit v1 of
                    Inl e \<Rightarrow> Inl e
                  | Inr v2 \<Rightarrow> Inr (v2\<lparr> render := (render v2)\<lparr> paused := False \<rparr> \<rparr>))
            else if 1 \<le> cmd \<and> cmd \<le> 4
            then
              (let want = wantDir cmd (pendingDir r1);
                   cur = dir r1
               in snakeAdvance (if (want + 2) AND 3 \<noteq> cur
                                then v1\<lparr> render := r1\<lparr> pendingDir := want \<rparr> \<rparr>
                                else v1))
            else snakeAdvance v1))"

text \<open>
  \<open>syscall(id)\<close>. The id is the byte read from the code buffer, or \<open>None\<close> for the
  \<open>undefined\<close> a read beyond the buffer gives.
\<close>
definition syscall :: "u8 option \<Rightarrow> vm \<Rightarrow> vmError + vm" where
  "syscall sid v =
     (if sid = Some 0x01 then snakeInit v
      else if sid = Some 0x02 then snakeTick v
      else Inr (v\<lparr> halted := True \<rparr>))"

text \<open>\<open>this.code[this.pc++]\<close>.\<close>
definition fetch :: "vm \<Rightarrow> u8 option \<times> vm" where
  "fetch v =
     ((if pc v < length (code v) then Some (code v ! pc v) else None),
      v\<lparr> pc := pc v + 1 \<rparr>)"

text \<open>How one run of a loop body ends: at a \<open>break\<close> or at the loop head again.\<close>
datatype 'a ctl = Break 'a | Continue 'a

text \<open>The body of the \<open>while\<close> loop of \<open>runFrame\<close>, on the machine and the cycle count.\<close>
definition runBody :: "vm \<Rightarrow> nat \<Rightarrow> vmError + (vm \<times> nat) ctl" where
  "runBody v cycles =
     (let (op, v1) = fetch v;
          c1 = cycles + 1
      in if op = Some 0x01 then Inr (Break (v1\<lparr> halted := True \<rparr>, c1))
         else if op = Some 0x40
         then
           (let (sid, v2) = fetch v1;
                c2 = c1 + 1
            in case syscall sid v2 of
                 Inl e \<Rightarrow> Inl e
               | Inr v3 \<Rightarrow> Inr (Continue (v3, c2)))
         else Inr (Break (v1\<lparr> halted := True \<rparr>, c1)))"

lemma runBody_cycles:
  "runBody v cycles = Inr (Continue (v', c')) \<Longrightarrow> c' = cycles + 2"
  "runBody v cycles = Inr (Break (v', c')) \<Longrightarrow> c' = cycles + 1"
  by (auto simp: runBody_def Let_def split: prod.splits if_splits sum.splits)

function runLoop :: "nat \<Rightarrow> vm \<Rightarrow> nat \<Rightarrow> vmError + (vm \<times> nat)" where
  "runLoop budget v cycles =
     (if \<not> halted v \<and> cycles < budget
      then (case runBody v cycles of
              Inl e \<Rightarrow> Inl e
            | Inr (Break s) \<Rightarrow> Inr s
            | Inr (Continue (v', c')) \<Rightarrow> runLoop budget v' c')
      else Inr (v, cycles))"
  by pat_completeness auto
termination
  by (relation "measure (\<lambda>(budget, v, cycles). budget - cycles)")
     (auto dest: runBody_cycles)

declare runLoop.simps [simp del]

text \<open>The number of times the loop body is run by \<open>runLoop\<close> from the same state.\<close>
function runIters :: "nat \<Rightarrow> vm \<Rightarrow> nat \<Rightarrow> nat" where
  "runIters budget v cycles =
     (if \<not> halted v \<and> cycles < budget
      then (case runBody v cycles of
              Inr (Continue (v', c')) \<Rightarrow> 1 + runIters budget v' c'
            | _ \<Rightarrow> 1)
      else 0)"
  by pat_completeness auto
termination
  by (relation "measure (\<lambda>(budget, v, cycles). budget - cycles)")
     (auto dest: runBody_cycles)

declare runIters.simps [simp del]

text \<open>\<open>(cycleBudget ?? this.cycleBudget) >>> 0\<close>: \<open>None\<close> is an omitted argument.\<close>
definition frameBudget :: "int option \<Rightarrow> vm \<Rightarrow> nat" where
  "frameBudget cb v =
     nat ((case cb of None \<Rightarrow> int (cycleBudget v) | Some b \<Rightarrow> b) mod 2 ^ 32)"

definition runFrame :: "int option \<Rightarrow> vm \<Rightarrow> vmError + (vm \<times> nat)" where
  "runFrame cb v =
     (let budget = frameBudget cb v;
          v0 = v\<lparr> halted := False \<rparr>
      in case runLoop budget v0 0 of
           Inl e \<Rightarrow> Inl e
         | Inr (v', cycles) \<Rightarrow> Inr (v'\<lparr> halted := True \<rparr>, cycles))"

text \<open>
  The loop states one invocation \<open>runFrame(budget)\<close> on the machine \<open>v0\<close> passes through:
  the state at loop entry, and each state a \<open>continue\<close> leads to.
\<close>
inductive runReaches :: "nat \<Rightarrow> vm \<Rightarrow> vm \<times> nat \<Rightarrow> bool" for budget :: nat and v0 :: vm where
  start: "runReaches budget v0 (v0\<lparr> halted := False \<rparr>, 0)"
| step: "runReaches budget v0 (v, c) \<Longrightarrow> \<not> halted v \<Longrightarrow> c < budget \<Longrightarrow>
         runBody v c = Inr (Continue (v', c')) \<Longrightarrow> runReaches budget v0 (v', c')"

section \<open>ppujpeg.js: cartridge blocks in APP15 segments before SOS\<close>

text \<open>
  A \<open>Uint8Array\<close> is a list of bytes. Every read below is inside the array (the code
  checks the bounds first, and so does the model), so no read yields \<open>undefined\<close>.
\<close>

datatype jpegError =
    NotJpeg | ExpectedMarker | TruncatedMarker | UnexpectedEOI | TruncatedSegLen
  | InvalidSegLen | NoSOS | SegmentTooLarge | SegmentOverrun
  | EncryptedFlag | LengthMismatch | CartridgeTooLarge | CrcMismatch

text \<open>\<open>u8.subarray(b, e)\<close> for \<open>0 \<le> b\<close> and \<open>0 \<le> e\<close>: empty when \<open>e \<le> b\<close>.\<close>
definition subarray :: "u8 list \<Rightarrow> nat \<Rightarrow> nat \<Rightarrow> u8 list" where
  "subarray u8 b e = take (e - b) (drop b u8)"

text \<open>One round of the inner loop of \<open>crc32\<close>: \<open>m = -(c & 1); c = (c >>> 1) ^ (0xEDB88320 & m)\<close>.\<close>
definition crcBit :: "u32 \<Rightarrow> u32" where
  "crcBit c = drop_bit 1 c XOR (0xEDB88320 AND - (c AND 1))"

text \<open>The body of the outer loop: \<open>c ^= u8[i]\<close>, then eight rounds.\<close>
definition crcByte :: "u32 \<Rightarrow> u8 \<Rightarrow> u32" where
  "crcByte c b = (crcBit ^^ 8) (c XOR ucast b)"

definition crc32 :: "u8 list \<Rightarrow> u32" where
  "crc32 u8 = foldl crcByte 0xFFFFFFFF u8 XOR 0xFFFFFFFF"

text \<open>\<open>(u8[off]<<8) | u8[off+1]\<close>.\<close>
definition readU16BE :: "u8 list \<Rightarrow> nat \<Rightarrow> nat" where
  "readU16BE u8 off = unat (push_bit 8 (ucast (u8 ! off) :: u32) OR ucast (u8 ! (off + 1)))"

text \<open>
  \<open>((u8[off]<<24)>>>0) | (u8[off+1]<<16) | (u8[off+2]<<8) | u8[off+3]\<close>: the final \<open>|\<close>
  yields a signed 32-bit integer, negative when the top bit of the first byte is set.
\<close>
definition readU32BE :: "u8 list \<Rightarrow> nat \<Rightarrow> int" where
  "readU32BE u8 off =
     sint (push_bit 24 (ucast (u8 ! off) :: u32) OR push_bit 16 (ucast (u8 ! (off + 1)))
           OR push_bit 8 (ucast (u8 ! (off + 2))) OR ucast (u8 ! (off + 3)))"

text \<open>The two bytes \<open>dv.setUint16(off, v & 0xFFFF, false)\<close> stores.\<close>
definition writeU16BE :: "nat \<Rightarrow> u8 list" where
  "writeU16BE v = [ucast (drop_bit 8 (of_nat v :: u16)), ucast (of_nat v :: u16)]"

text \<open>The four bytes \<open>dv.setUint32(off, v >>> 0, false)\<close> stores.\<close>
definition writeU32BE :: "u32 \<Rightarrow> u8 list" where
  "writeU32BE v = [ucast (drop_bit 24 v), ucast (drop_bit 16 v), ucast (drop_bit 8 v), ucast v]"

text \<open>The argument object of \<open>buildApp15Block\<close>; \<open>flags\<close> is \<open>{crc, compressed}\<close>.\<close>
record block_args =
  argBlockType :: int
  argPayload :: "u8 list"
  argVersion :: int
  argCrc :: bool
  argCompressed :: bool

text \<open>\<open>(flags.crc?1:0) | (flags.compressed?2:0)\<close>.\<close>
definition flagByte :: "block_args \<Rightarrow> u8" where
  "flagByte a = (if argCrc a then 1 else 0) OR (if argCompressed a then 2 else 0)"

definition buildApp15Block :: "block_args \<Rightarrow> u8 list" where
  "buildApp15Block a =
     (let payload = argPayload a;
          hdr = [0x50, 0x50, 0x55, 0x4a, of_int (argVersion a), of_int (argBlockType a),
                 flagByte a, 0] @ writeU32BE (of_nat (length payload));
          body = hdr @ payload
      in if argCrc a then body @ writeU32BE (crc32 body) else body)"

text \<open>The inner loop \<open>while(p < u8.length && u8[p] === 0xFF) p++\<close>.\<close>
function skipFill :: "u8 list \<Rightarrow> nat \<Rightarrow> nat" where
  "skipFill u8 p = (if p < length u8 \<and> u8 ! p = 0xFF then skipFill u8 (p + 1) else p)"
  by pat_completeness auto
termination
  by (relation "measure (\<lambda>(u8, p). length u8 - p)") auto

declare skipFill.simps [simp del]

lemma skipFill_ge: "p \<le> skipFill u8 p"
  by (induction u8 p rule: skipFill.induct) (subst skipFill.simps, auto)

lemma skipFill_gt: "p < length u8 \<Longrightarrow> u8 ! p = 0xFF \<Longrightarrow> p < skipFill u8 p"
  using skipFill_ge [of "p + 1" u8] by (subst skipFill.simps) simp

text \<open>
  The body of the marker loop of \<open>injectBeforeSOS\<close>, entered with \<open>p < u8.length\<close>:
  \<open>Break\<close> carries \<open>sosOff\<close>, \<open>Continue\<close> the next \<open>p\<close>.
\<close>
definition sosBody :: "u8 list \<Rightarrow> nat \<Rightarrow> jpegError + nat ctl" where
  "sosBody u8 p =
     (if u8 ! p \<noteq> 0xFF then Inl ExpectedMarker
      else
        (let q = skipFill u8 p in
         if length u8 \<le> q then Inl TruncatedMarker
         else
           (let marker = u8 ! q; p1 = q + 1 in
            if marker = 0xDA then Inr (Break (p1 - 2))
            else if marker = 0xD9 then Inl UnexpectedEOI
            else if (0xD0 \<le> marker \<and> marker \<le> 0xD7) \<or> marker = 0x01
            then Inr (Continue p1)
            else if length u8 < p1 + 2 then Inl TruncatedSegLen
            else
              (let segLen = readU16BE u8 p1 in
               if segLen < 2 then Inl InvalidSegLen
               else Inr (Continue (p1 + segLen))))))"

lemma sosBody_advances:
  "p < length u8 \<Longrightarrow> sosBody u8 p = Inr (Continue p') \<Longrightarrow> p < p'"
  using skipFill_gt [of p u8]
  by (auto simp: sosBody_def Let_def split: if_splits)

text \<open>The marker loop of \<open>injectBeforeSOS\<close>; leaving it with \<open>sosOff = -1\<close> is \<open>NoSOS\<close>.\<close>
function sosWalk :: "u8 list \<Rightarrow> nat \<Rightarrow> jpegError + nat" where
  "sosWalk u8 p =
     (if p < length u8
      then (case sosBody u8 p of
              Inl e \<Rightarrow> Inl e
            | Inr (Break sosOff) \<Rightarrow> Inr sosOff
            | Inr (Continue p') \<Rightarrow> sosWalk u8 p')
      else Inl NoSOS)"
  by pat_completeness auto
termination
  by (relation "measure (\<lambda>(u8, p). length u8 - p)")
     (auto dest: sosBody_advances intro: diff_less_mono2)

declare sosWalk.simps [simp del]

text \<open>The first half of \<open>injectBeforeSOS\<close>: the SOI check and the walk to \<open>sosOff\<close>.\<close>
definition splicePoint :: "u8 list \<Rightarrow> jpegError + nat" where
  "splicePoint u8 =
     (if length u8 < 4 \<or> u8 ! 0 \<noteq> 0xFF \<or> u8 ! 1 \<noteq> 0xD8 then Inl NotJpeg
      else sosWalk u8 2)"

text \<open>
  The segment \<open>injectBeforeSOS\<close> wraps around one payload: the marker \<open>FF EF\<close>, the length
  field \<open>pl.length + 2\<close>, the payload.
\<close>
definition app15Segment :: "u8 list \<Rightarrow> u8 list" where
  "app15Segment pl = [0xFF, 0xEF] @ writeU16BE (length pl + 2) @ pl"

text \<open>The loop that wraps each payload, refusing one whose length field would not fit.\<close>
fun app15Segments :: "u8 list list \<Rightarrow> jpegError + u8 list list" where
  "app15Segments [] = Inr []"
| "app15Segments (pl # rest) =
     (let segLen = length pl + 2 in
      if 0xFFFF < segLen then Inl SegmentTooLarge
      else (case app15Segments rest of
              Inl e \<Rightarrow> Inl e
            | Inr segs \<Rightarrow> Inr (app15Segment pl # segs)))"

definition injectBeforeSOS :: "u8 list \<Rightarrow> u8 list list \<Rightarrow> jpegError + u8 list" where
  "injectBeforeSOS u8 appPayloads =
     (case splicePoint u8 of
        Inl e \<Rightarrow> Inl e
      | Inr sosOff \<Rightarrow>
          (case app15Segments appPayloads of
             Inl e \<Rightarrow> Inl e
           | Inr segments \<Rightarrow> Inr (take sosOff u8 @ concat segments @ drop sosOff u8)))"

text \<open>An entry of the list \<open>parseCartridge\<close> returns.\<close>
record block =
  version :: u8
  blockType :: u8
  flags :: u8
  payload :: "u8 list"

text \<open>
  Lines 158 to 176 of \<open>parseCartridge\<close>: decoding the payload \<open>pl\<close> of an APP15 segment
  that starts with the magic. Returns the block and the new \<open>totalPayload\<close>.
\<close>
definition ppujBlock :: "u8 list \<Rightarrow> int \<Rightarrow> int \<Rightarrow> jpegError + (block \<times> int)" where
  "ppujBlock pl totalPayload maxTotal =
     (let fl = pl ! 6;
          hasCrc = (fl AND 1 \<noteq> 0);
          encrypted = (fl AND 4 \<noteq> 0)
      in if encrypted then Inl EncryptedFlag
         else
           (let n = readU32BE pl 8;
                headerLen = 12;
                crcLen = (if hasCrc then 4 else 0)
            in if headerLen + n + crcLen \<noteq> int (length pl) then Inl LengthMismatch
               else
                 (let tot = totalPayload + n in
                  if maxTotal < tot then Inl CartridgeTooLarge
                  else if hasCrc \<and>
                          crc32 (subarray pl 0 (nat (headerLen + n))) \<noteq>
                            word_of_int (readU32BE pl (nat (headerLen + n)))
                  then Inl CrcMismatch
                  else Inr (\<lparr> version = pl ! 4, blockType = pl ! 5, flags = fl,
                              payload = subarray pl (nat headerLen) (nat (headerLen + n)) \<rparr>,
                            tot))))"

text \<open>
  The body of the marker loop of \<open>parseCartridge\<close>, entered with \<open>p < u8.length\<close>, on the
  loop state \<open>(p, totalPayload, blocks)\<close>.
\<close>
definition parseBody ::
  "u8 list \<Rightarrow> int \<Rightarrow> nat \<times> int \<times> block list \<Rightarrow> jpegError + (nat \<times> int \<times> block list) ctl" where
  "parseBody u8 maxTotal st =
     (case st of (p, totalPayload, blocks) \<Rightarrow>
      if u8 ! p \<noteq> 0xFF then Inl ExpectedMarker
      else
        (let q = skipFill u8 p in
         if length u8 \<le> q then Inl TruncatedMarker
         else
           (let marker = u8 ! q; p1 = q + 1 in
            if marker = 0xDA then Inr (Break (p1, totalPayload, blocks))
            else if marker = 0xD9 then Inr (Break (p1, totalPayload, blocks))
            else if (0xD0 \<le> marker \<and> marker \<le> 0xD7) \<or> marker = 0x01
            then Inr (Continue (p1, totalPayload, blocks))
            else if length u8 < p1 + 2 then Inl TruncatedSegLen
            else
              (let segLen = readU16BE u8 p1 in
               if segLen < 2 then Inl InvalidSegLen
               else
                 (let segStart = p1 + 2; segEnd = p1 + segLen in
                  if length u8 < segEnd then Inl SegmentOverrun
                  else if marker = 0xEF
                  then
                    (let pl = subarray u8 segStart segEnd in
                     if 12 \<le> length pl \<and> pl ! 0 = 0x50 \<and> pl ! 1 = 0x50 \<and>
                        pl ! 2 = 0x55 \<and> pl ! 3 = 0x4a
                     then (case ppujBlock pl totalPayload maxTotal of
                             Inl e \<Rightarrow> Inl e
                           | Inr (b, tot) \<Rightarrow> Inr (Continue (segEnd, tot, blocks @ [b])))
                     else Inr (Continue (segEnd, totalPayload, blocks)))
                  else Inr (Continue (segEnd, totalPayload, blocks)))))))"

lemma parseBody_advances:
  "p < length u8 \<Longrightarrow> parseBody u8 maxTotal (p, t, bs) = Inr (Continue (p', t', bs')) \<Longrightarrow> p < p'"
  using skipFill_gt [of p u8]
  by (auto simp: parseBody_def Let_def split: if_splits sum.splits)

lemma parseBody_measure:
  "p < length u8 \<Longrightarrow> parseBody u8 maxTotal (p, t, bs) = Inr (Continue (p', t', bs')) \<Longrightarrow>
   length u8 - p' < length u8 - p"
  by (frule (1) parseBody_advances) arith

function parseWalk :: "u8 list \<Rightarrow> int \<Rightarrow> nat \<times> int \<times> block list \<Rightarrow> jpegError + block list" where
  "parseWalk u8 maxTotal st =
     (if fst st < length u8
      then (case parseBody u8 maxTotal st of
              Inl e \<Rightarrow> Inl e
            | Inr (Break st') \<Rightarrow> Inr (snd (snd st'))
            | Inr (Continue st') \<Rightarrow> parseWalk u8 maxTotal st')
      else Inr (snd (snd st)))"
  by pat_completeness auto
termination
  by (relation "measure (\<lambda>(u8, maxTotal, st). length u8 - fst st)")
     (auto intro: parseBody_measure)

declare parseWalk.simps [simp del]

text \<open>\<open>parseCartridge(jpegU8, {maxTotal})\<close>; the default \<open>maxTotal\<close> is \<open>8*1024*1024\<close>.\<close>
definition parseCartridge :: "u8 list \<Rightarrow> int \<Rightarrow> jpegError + block list" where
  "parseCartridge u8 maxTotal =
     (if length u8 < 4 \<or> u8 ! 0 \<noteq> 0xFF \<or> u8 ! 1 \<noteq> 0xD8 then Inl NotJpeg
      else parseWalk u8 maxTotal (2, 0, []))"

text \<open>
  The entry \<open>parseCartridge\<close> is expected to return for a block built from the arguments
  \<open>a\<close>: the same fields, version and type masked to a byte as \<open>buildApp15Block\<close> stores
  them, the flags as the flag byte.
\<close>
definition decoded :: "block_args \<Rightarrow> block" where
  "decoded a = \<lparr> version = of_int (argVersion a), blockType = of_int (argBlockType a),
                 flags = flagByte a, payload = argPayload a \<rparr>"

text \<open>The bytes spliced in for one block.\<close>
definition blockSegment :: "block_args \<Rightarrow> u8 list" where
  "blockSegment a = app15Segment (buildApp15Block a)"

text \<open>
  The loop states the walk of \<open>parseCartridge\<close> passes through on an input: the state
  after the SOI check, and each state a \<open>continue\<close> or the end of the loop body leads to.
\<close>
inductive parseReaches :: "u8 list \<Rightarrow> int \<Rightarrow> nat \<times> int \<times> block list \<Rightarrow> bool"
  for u8 :: "u8 list" and maxTotal :: int where
  start: "\<not> (length u8 < 4 \<or> u8 ! 0 \<noteq> 0xFF \<or> u8 ! 1 \<noteq> 0xD8) \<Longrightarrow>
          parseReaches u8 maxTotal (2, 0, [])"
| step: "parseReaches u8 maxTotal st \<Longrightarrow> fst st < length u8 \<Longrightarrow>
         parseBody u8 maxTotal st = Inr (Continue st') \<Longrightarrow> parseReaches u8 maxTotal st'"

text \<open>The same for the walk of \<open>injectBeforeSOS\<close>, whose loop state is \<open>p\<close>.\<close>
inductive sosReaches :: "u8 list \<Rightarrow> nat \<Rightarrow> bool" for u8 :: "u8 list" where
  start: "\<not> (length u8 < 4 \<or> u8 ! 0 \<noteq> 0xFF \<or> u8 ! 1 \<noteq> 0xD8) \<Longrightarrow> sosReaches u8 2"
| step: "sosReaches u8 p \<Longrightarrow> p < length u8 \<Longrightarrow> sosBody u8 p = Inr (Continue p') \<Longrightarrow>
         sosReaches u8 p'"

text \<open>
  The states on which no syscall throws or computes \<open>NaN\<close>: a non-empty snake, a pending
  direction inside the step tables, non-zero board sizes. The constructor and \<open>snakeInit\<close>
  build such states and \<open>snakeTick\<close> keeps them (lemmas \<open>snakeInit_playable\<close>,
  \<open>snakeTick_returns\<close>).
\<close>
definition playable :: "vm \<Rightarrow> bool" where
  "playable v \<longleftrightarrow>
     snake (render v) \<noteq> [] \<and> pendingDir (render v) < 4 \<and>
     boardW (render v) \<noteq> 0 \<and> boardH (render v) \<noteq> 0"

text \<open>The score is the number of cells the snake has grown beyond its three-cell seed.\<close>
definition scoreInv :: "vm \<Rightarrow> bool" where
  "scoreInv v \<longleftrightarrow> int (score (render v)) = int (length (snake (render v))) - 3"

text \<open>
  Concrete machines for the scenarios below: the cartridge the host builds (header tag
  \<open>SNAK\<close>, bytecode \<open>SYSCALL INIT; SYSCALL TICK; HALT\<close>), its state after \<open>INIT\<close>, and
  variations of that state.
\<close>
abbreviation snakVM :: vm where
  "snakVM \<equiv> newPPUVM \<lparr> entryPoint = 0, osId = 0x534E414B \<rparr> [0x40, 0x01, 0x40, 0x02, 0x01]"

abbreviation snakStart :: vm where
  "snakStart \<equiv> snakVM\<lparr> prng := 0xC4BA5B75, draws := 1,
     render := (render snakVM)\<lparr> paused := True, apple := (5, 2) \<rparr> \<rparr>"

abbreviation heading_right :: vm where
  "heading_right \<equiv> snakStart\<lparr> ioTick := 1,
     render := (render snakStart)\<lparr> paused := False, dir := 1, pendingDir := 1 \<rparr> \<rparr>"

abbreviation appleAhead :: vm where
  "appleAhead \<equiv> snakStart\<lparr> ioTick := 7,
     render := (render snakStart)\<lparr> paused := False, apple := (10, 11) \<rparr> \<rparr>"

abbreviation badVM :: vm where
  "badVM \<equiv> newPPUVM \<lparr> entryPoint = 0, osId = 0x534E414B \<rparr> [0x99, 0x40, 0x07, 0x40, 0x01]"

abbreviation lateBadVM :: vm where
  "lateBadVM \<equiv> newPPUVM \<lparr> entryPoint = 0, osId = 0x534E414B \<rparr> [0x40, 0x01, 0x99, 0x40, 0x01]"

abbreviation resumeVM :: vm where
  "resumeVM \<equiv> newPPUVM \<lparr> entryPoint = 0, osId = 0x534E414B \<rparr> [0x99, 0x40, 0x01]"

abbreviation tickAfterBadVM :: vm where
  "tickAfterBadVM \<equiv> newPPUVM \<lparr> entryPoint = 0, osId = 0x534E414B \<rparr> [0x99, 0x40, 0x02, 0x01]"

text \<open>
  Concrete images and blocks: a small JPEG marker stream with fill bytes before SOS, the
  arguments of the host's bytecode block, that block with its last checksum byte
  changed from \<open>0x12\<close> to \<open>0x13\<close>, and an APP15 payload of 15 bytes whose length field
  is \<open>FF FF FF FF\<close>, alone in an image between SOI and SOS.
\<close>
abbreviation tinyJpeg :: "u8 list" where
  "tinyJpeg \<equiv> [0xFF, 0xD8, 0xFF, 0xE0, 0x00, 0x04, 0x01, 0x02, 0xFF, 0xFF, 0xDA, 0x00, 0x03,
                0x07, 0xFF, 0xD9]"

abbreviation bytecodeArgs :: block_args where
  "bytecodeArgs \<equiv> \<lparr> argBlockType = 2, argPayload = [0x40, 1, 0x40, 2, 1], argVersion = 1,
                      argCrc = True, argCompressed = False \<rparr>"

abbreviation badCrcBlock :: "u8 list" where
  "badCrcBlock \<equiv> [0x50, 0x50, 0x55, 0x4a, 1, 2, 1, 0, 0, 0, 0, 5, 0x40, 1, 0x40, 2, 1,
                  0x10, 0x3b, 0x5b, 0x13]"

abbreviation signedLenBlock :: "u8 list" where
  "signedLenBlock \<equiv> [0x50, 0x50, 0x55, 0x4a, 0x00, 0x38, 0x01, 0x00, 0xFF, 0xFF, 0xFF, 0xFF,
                     0x42, 0xBA, 0xFE]"

abbreviation signedLenJpeg :: "u8 list" where
  "signedLenJpeg \<equiv> [0xFF, 0xD8, 0xFF, 0xEF, 0x00, 0x11,
                    0x50, 0x50, 0x55, 0x4a, 0x00, 0x38, 0x01, 0x00, 0xFF, 0xFF, 0xFF, 0xFF,
                    0x42, 0xBA, 0xFE, 0xFF, 0xDA]"

section \<open>Properties of the Snake syscalls\<close>

lemma spawnTries_shape:
  "spawnTries tries occ v = (res, v2) \<Longrightarrow>
     (\<exists>p. v2 = v\<lparr> prng := p \<rparr>) \<and>
     (\<forall>v'. res = Some v' \<longrightarrow> (\<exists>p a. v' = v\<lparr> prng := p, render := (render v)\<lparr> apple := a \<rparr> \<rparr>))"
proof (induction tries occ v arbitrary: res v2 rule: spawnTries.induct)
  case (1 tries occ v)
  show ?case
  proof (cases "tries < 2048")
    case False
    with "1.prems" have "res = None" "v2 = v"
      by (simp_all add: spawnTries.simps)
    then show ?thesis
      by (auto intro: exI [of _ "prng v"])
  next
    case True
    obtain r v1 where rv: "randU32 v = (r, v1)"
      by (cases "randU32 v")
    then have v1: "v1 = v\<lparr> prng := r \<rparr>"
      by (auto simp: randU32_def Let_def)
    define x where "x = uint r mod \<bar>boardW (render v1)\<bar>"
    define y where "y = uint (drop_bit 16 r) mod \<bar>boardH (render v1)\<bar>"
    show ?thesis
    proof (cases "x + y * boardW (render v1) \<notin> occ")
      case free: True
      with True rv "1.prems"
      have "res = Some (v1\<lparr> render := (render v1)\<lparr> apple := (x, y) \<rparr> \<rparr>)" "v2 = v1"
        by (auto simp: spawnTries.simps [of tries] Let_def x_def y_def)
      then show ?thesis
        using v1 by auto
    next
      case occupied: False
      with True rv "1.prems"
      have rec: "spawnTries (tries + 1) occ v1 = (res, v2)"
        by (simp add: spawnTries.simps [of tries] Let_def x_def y_def)
      have "(\<exists>p. v2 = v1\<lparr> prng := p \<rparr>) \<and>
            (\<forall>v'. res = Some v' \<longrightarrow>
               (\<exists>p a. v' = v1\<lparr> prng := p, render := (render v1)\<lparr> apple := a \<rparr> \<rparr>))"
        using "1.IH" [OF True refl rv [symmetric] refl refl refl refl refl _ rec] occupied
        by (simp add: x_def y_def)
      then show ?thesis
        using v1 by auto
    qed
  qed
qed

lemma spawnApple_shape:
  assumes "spawnApple v = Inr v'"
  shows "\<exists>p a. v' = v\<lparr> prng := p, render := (render v)\<lparr> apple := a \<rparr> \<rparr>"
proof -
  obtain res v2 where st: "spawnTries 0 (set (map (cellKey (boardW (render v))) (snake (render v)))) v = (res, v2)"
    by (cases "spawnTries 0 (set (map (cellKey (boardW (render v))) (snake (render v)))) v")
  from spawnTries_shape [OF st] obtain p where
    v2: "v2 = v\<lparr> prng := p \<rparr>" and
    res: "\<And>w. res = Some w \<Longrightarrow> \<exists>p a. w = v\<lparr> prng := p, render := (render v)\<lparr> apple := a \<rparr> \<rparr>"
    by blast
  show ?thesis
  proof (cases res)
    case (Some w)
    with assms st have "v' = w"
      by (simp add: spawnApple_def Let_def split: if_splits)
    with res [OF Some] show ?thesis by simp
  next
    case None
    with assms st v2 have
      "v' = v\<lparr> prng := p \<rparr> \<or> (\<exists>c. v' = v\<lparr> prng := p, render := (render v)\<lparr> apple := c \<rparr> \<rparr>)"
      by (auto simp: spawnApple_def Let_def split: if_splits option.splits)
    then show ?thesis
    proof
      assume "v' = v\<lparr> prng := p \<rparr>"
      then have "v' = v\<lparr> prng := p, render := (render v)\<lparr> apple := apple (render v) \<rparr> \<rparr>"
        by simp
      then show ?thesis by blast
    qed blast
  qed
qed

lemma spawnApple_returns:
  "boardW (render v) \<noteq> 0 \<Longrightarrow> boardH (render v) \<noteq> 0 \<Longrightarrow> \<exists>v'. spawnApple v = Inr v'"
  by (auto simp: spawnApple_def Let_def split: prod.splits option.splits)

lemma snakeInit_shape:
  "\<exists>p a. snakeInit v =
     Inr (onDraw (v\<lparr> render := (render v)\<lparr> boardW := 20, boardH := 20, dir := 0,
                     pendingDir := 0, paused := True, gameOver := False, score := 0,
                     snake := [(10, 12), (10, 13), (10, 14)], apple := a \<rparr>,
                   prng := p \<rparr>))"
proof -
  define v1 where "v1 = v\<lparr> render := (render v)\<lparr> boardW := 20, boardH := 20, dir := 0,
                     pendingDir := 0, paused := True, gameOver := False, score := 0,
                     snake := [(10, 12), (10, 13), (10, 14)] \<rparr>,
                   prng := 0xA5A5A5A5 XOR osId (header v) \<rparr>"
  have "\<exists>v2. spawnApple v1 = Inr v2"
    by (rule spawnApple_returns) (simp_all add: v1_def)
  then obtain v2 where v2: "spawnApple v1 = Inr v2" ..
  from spawnApple_shape [OF v2] obtain p a where
    "v2 = v1\<lparr> prng := p, render := (render v1)\<lparr> apple := a \<rparr> \<rparr>" by blast
  then have "snakeInit v = Inr (onDraw (v\<lparr> render := (render v)\<lparr> boardW := 20, boardH := 20, dir := 0,
                     pendingDir := 0, paused := True, gameOver := False, score := 0,
                     snake := [(10, 12), (10, 13), (10, 14)], apple := a \<rparr>,
                   prng := p \<rparr>))"
    using v2 by (simp add: snakeInit_def Let_def v1_def onDraw_def)
  then show ?thesis by blast
qed

lemma snakeAdvance_frame:
  assumes "snakeAdvance v = Inr v'"
  shows "ioTick v' = ioTick v \<and> ioCmd v' = ioCmd v \<and> lastTick (render v') = lastTick (render v) \<and>
    pendingDir (render v') = pendingDir (render v) \<and>
    boardW (render v') = boardW (render v) \<and> boardH (render v') = boardH (render v) \<and>
    paused (render v') = paused (render v) \<and>
    halted v' = halted v \<and> pc v' = pc v \<and> code v' = code v \<and> header v' = header v"
  using assms
  by (auto simp: snakeAdvance_def Let_def onDraw_def
           split: if_splits list.splits sum.splits dest!: spawnApple_shape)

lemma snakeAdvance_score:
  assumes "snakeAdvance v = Inr v'" "score (render v) + 3 = length (snake (render v))"
  shows "score (render v') + 3 = length (snake (render v'))"
  using assms
  by (auto simp: snakeAdvance_def Let_def onDraw_def
           split: if_splits list.splits sum.splits dest!: spawnApple_shape)

lemma spawnApple_Inl:
  "spawnApple v = Inl e \<Longrightarrow> boardW (render v) = 0 \<or> boardH (render v) = 0"
  by (auto simp: spawnApple_def Let_def split: if_splits prod.splits option.splits)

lemma snakeAdvance_playable:
  assumes "snakeAdvance v = Inr v'" "playable v"
  shows "playable v'"
  using assms
  by (auto simp: snakeAdvance_def Let_def onDraw_def playable_def
           split: if_splits list.splits sum.splits dest!: spawnApple_shape)

lemma snakeAdvance_no_error:
  assumes "playable v"
  shows "snakeAdvance v \<noteq> Inl e"
  using assms
  by (auto simp: snakeAdvance_def Let_def onDraw_def playable_def
           split: if_splits list.splits sum.splits dest!: spawnApple_Inl)

lemma snakeAdvance_returns:
  assumes "playable v"
  shows "\<exists>v'. snakeAdvance v = Inr v' \<and> playable v'"
proof (cases "snakeAdvance v")
  case (Inl err)
  with snakeAdvance_no_error [OF assms, of err] show ?thesis by simp
next
  case (Inr v')
  with snakeAdvance_playable [OF Inr assms] show ?thesis by simp
qed

lemma snakeInit_playable: "\<exists>v'. snakeInit v = Inr v' \<and> playable v'"
  using snakeInit_shape [of v] by (auto simp: playable_def onDraw_def)

lemma snakeInit_frame:
  assumes "snakeInit v = Inr v'"
  shows "ioTick v' = ioTick v \<and> ioCmd v' = ioCmd v \<and> lastTick (render v') = lastTick (render v) \<and>
    halted v' = halted v \<and> pc v' = pc v \<and> code v' = code v \<and> header v' = header v \<and>
    score (render v') + 3 = length (snake (render v')) \<and> pendingDir (render v') = 0"
  using snakeInit_shape [of v] assms by (auto simp: onDraw_def)

lemma snakeTick_frame:
  assumes "snakeTick v = Inr v'"
  shows "ioTick v' = ioTick v \<and> ioCmd v' = ioCmd v \<and> lastTick (render v') = ioTick v \<and>
    halted v' = halted v \<and> pc v' = pc v \<and> code v' = code v \<and> header v' = header v"
  using assms
  by (auto simp: snakeTick_def Let_def split: if_splits sum.splits
           dest!: snakeInit_frame snakeAdvance_frame)

lemma snakeTick_returns:
  assumes "playable v"
  shows "\<exists>v'. snakeTick v = Inr v' \<and> playable v'"
proof (cases "ioTick v = lastTick (render v)")
  case True
  with assms show ?thesis by (simp add: snakeTick_def)
next
  case fresh: False
  define v1 where "v1 = v\<lparr> render := (render v)\<lparr> lastTick := ioTick v \<rparr> \<rparr>"
  have p1: "playable v1"
    using assms by (simp add: playable_def v1_def)
  consider (pause) "ioCmd v = 5" | (restart) "ioCmd v = 6"
    | (steer) "ioCmd v \<noteq> 5" "ioCmd v \<noteq> 6" "1 \<le> ioCmd v \<and> ioCmd v \<le> 4"
    | (other) "ioCmd v \<noteq> 5" "ioCmd v \<noteq> 6" "\<not> (1 \<le> ioCmd v \<and> ioCmd v \<le> 4)"
    by blast
  then show ?thesis
  proof cases
    case pause
    define w where "w = (if \<not> gameOver (render v1)
        then v1\<lparr> render := (render v1)\<lparr> paused := \<not> paused (render v1) \<rparr> \<rparr> else v1)"
    have "playable w" using p1 by (simp add: w_def playable_def)
    from snakeAdvance_returns [OF this] have "\<exists>v'. snakeAdvance w = Inr v' \<and> playable v'" .
    moreover have "snakeTick v = snakeAdvance w"
      using fresh pause by (simp add: snakeTick_def Let_def w_def v1_def)
    ultimately show ?thesis by simp
  next
    case restart
    obtain v2 where v2: "snakeInit v1 = Inr v2" "playable v2"
      using snakeInit_playable [of v1] by blast
    have "snakeTick v = Inr (v2\<lparr> render := (render v2)\<lparr> paused := False \<rparr> \<rparr>)"
      using fresh restart v2 by (simp add: snakeTick_def Let_def v1_def)
    moreover have "playable (v2\<lparr> render := (render v2)\<lparr> paused := False \<rparr> \<rparr>)"
      using v2 by (simp add: playable_def)
    ultimately show ?thesis by simp
  next
    case steer
    define want where "want = wantDir (ioCmd v) (pendingDir (render v))"
    define w where "w = (if (want + 2) AND 3 \<noteq> dir (render v1)
        then v1\<lparr> render := (render v1)\<lparr> pendingDir := want \<rparr> \<rparr> else v1)"
    have "want < 4" using assms by (simp add: want_def wantDir_def playable_def)
    then have "playable w" using p1 by (simp add: w_def playable_def)
    from snakeAdvance_returns [OF this] have "\<exists>v'. snakeAdvance w = Inr v' \<and> playable v'" .
    moreover have "snakeTick v = snakeAdvance w"
      using fresh steer by (simp add: snakeTick_def Let_def w_def v1_def want_def)
    ultimately show ?thesis by simp
  next
    case other
    have "snakeTick v = snakeAdvance v1"
      using fresh other by (auto simp: snakeTick_def Let_def v1_def)
    with snakeAdvance_returns [OF p1] show ?thesis by simp
  qed
qed

lemma snakeTick_score:
  assumes "snakeTick v = Inr v'" "score (render v) + 3 = length (snake (render v))"
  shows "score (render v') + 3 = length (snake (render v'))"
  using assms
  by (auto simp: snakeTick_def Let_def split: if_splits sum.splits
           dest!: snakeInit_frame dest: snakeAdvance_score)

lemma snakeTick_replay:
  assumes "snakeTick v = Inr v'"
  shows "snakeTick (v'\<lparr> ioCmd := c, modeBits := m \<rparr>) = Inr (v'\<lparr> ioCmd := c, modeBits := m \<rparr>)"
  using snakeTick_frame [OF assms] by (simp add: snakeTick_def)

lemma and3_mod4: "(n::nat) AND 3 = n mod 4"
  using take_bit_eq_mod [of 2 n] by (simp add: take_bit_eq_mask mask_eq_exp_minus_1)

lemma snakeTick_pending:
  assumes "playable v" "ioTick v \<noteq> lastTick (render v)" "1 \<le> ioCmd v" "ioCmd v \<le> 4"
  shows "\<exists>v'. snakeTick v = Inr v' \<and>
           pendingDir (render v') =
             (if (wantDir (ioCmd v) (pendingDir (render v)) + 2) mod 4 \<noteq> dir (render v)
              then wantDir (ioCmd v) (pendingDir (render v)) else pendingDir (render v))"
proof -
  define v1 where "v1 = v\<lparr> render := (render v)\<lparr> lastTick := ioTick v \<rparr> \<rparr>"
  define want where "want = wantDir (ioCmd v) (pendingDir (render v))"
  define w where "w = (if (want + 2) AND 3 \<noteq> dir (render v1)
        then v1\<lparr> render := (render v1)\<lparr> pendingDir := want \<rparr> \<rparr> else v1)"
  have p1: "playable v1"
    using assms(1) by (simp add: playable_def v1_def)
  have "want < 4" using assms(1) by (simp add: want_def wantDir_def playable_def)
  then have "playable w" using p1 by (simp add: w_def playable_def)
  from snakeAdvance_returns [OF this] obtain v' where v': "snakeAdvance w = Inr v'" by blast
  have cmd: "ioCmd v \<noteq> 5" "ioCmd v \<noteq> 6"
    using assms(4) by auto
  have "snakeTick v = snakeAdvance w"
    using assms(2,3,4) cmd by (simp add: snakeTick_def Let_def w_def v1_def want_def)
  moreover have "pendingDir (render v') = pendingDir (render w)"
    using snakeAdvance_frame [OF v'] by simp
  moreover have "pendingDir (render w) =
      (if (want + 2) mod 4 \<noteq> dir (render v) then want else pendingDir (render v))"
    by (simp add: w_def v1_def and3_mod4)
  ultimately show ?thesis
    using v' by (simp add: want_def)
qed

lemma runLoop_exit:
  assumes "halted v \<or> budget \<le> cycles"
  shows "runLoop budget v cycles = Inr (v, cycles)" "runIters budget v cycles = 0"
  using assms by (auto simp: runLoop.simps [of budget v cycles] runIters.simps [of budget v cycles])

lemma runIters_bound: "runIters budget v cycles \<le> budget - cycles"
proof (induction budget v cycles rule: runIters.induct)
  case (1 budget v cycles)
  show ?case
  proof (cases "\<not> halted v \<and> cycles < budget")
    case False
    then show ?thesis by (auto simp: runLoop_exit)
  next
    case True
    show ?thesis
    proof (cases "runBody v cycles")
      case (Inl e)
      with True show ?thesis by (auto simp: runIters.simps [of budget v cycles])
    next
      case (Inr s)
      show ?thesis
      proof (cases s)
        case (Break p)
        with Inr True show ?thesis by (auto simp: runIters.simps [of budget v cycles])
      next
        case (Continue p)
        obtain v' c' where p: "p = (v', c')" by (cases p)
        have c': "c' = cycles + 2"
          using Inr Continue p by (auto dest: runBody_cycles)
        have "runIters budget v' c' \<le> budget - c'"
          using "1.IH" [OF True Inr Continue p [symmetric]] by simp
        with True Inr Continue p c' show ?thesis
          by (auto simp: runIters.simps [of budget v cycles])
      qed
    qed
  qed
qed

lemma runLoop_budget_reached:
  "runLoop budget v (budget + k) = Inr (v, budget + k)" "runIters budget v (budget + k) = 0"
  by (simp_all add: runLoop_exit)

lemma runLoop_bad_opcode:
  assumes "\<not> halted v" "cycles < budget"
    "fst (fetch v) \<noteq> Some 0x01" "fst (fetch v) \<noteq> Some 0x40"
  shows "runLoop budget v cycles = Inr (v\<lparr> pc := pc v + 1, halted := True \<rparr>, cycles + 1)"
    "runIters budget v cycles = 1"
  using assms
  by (simp_all add: runLoop.simps [of budget v] runIters.simps [of budget v] runBody_def fetch_def Let_def)

lemma runLoop_bad_syscall:
  assumes "\<not> halted v" "cycles < budget"
    "fst (fetch v) = Some 0x40"
    "fst (fetch (snd (fetch v))) \<noteq> Some 0x01" "fst (fetch (snd (fetch v))) \<noteq> Some 0x02"
  shows "runLoop budget v cycles = Inr (v\<lparr> pc := pc v + 2, halted := True \<rparr>, cycles + 2)"
    "runIters budget v cycles = 1"
  using assms
  by (simp_all add: runLoop.simps [of budget v] runIters.simps [of budget v] runBody_def fetch_def
           syscall_def Let_def runLoop_exit)

lemma syscall_returns:
  assumes "playable v"
  shows "\<exists>v'. syscall sid v = Inr v' \<and> playable v'"
  using assms snakeInit_playable [of v] snakeTick_returns [of v]
  by (auto simp: syscall_def playable_def)

lemma runLoop_returns:
  assumes "playable v"
  shows "\<exists>v' c. runLoop budget v cycles = Inr (v', c) \<and> playable v'"
  using assms
proof (induction budget v cycles rule: runLoop.induct)
  case (1 budget v cycles)
  show ?case
  proof (cases "\<not> halted v \<and> cycles < budget")
    case False
    then show ?thesis using "1.prems" by (auto simp: runLoop_exit)
  next
    case True
    define v1 where "v1 = v\<lparr> pc := pc v + 1 \<rparr>"
    define v2 where "v2 = v\<lparr> pc := pc v + 2 \<rparr>"
    have p1: "playable (v1\<lparr> halted := True \<rparr>)" and p2: "playable v2"
      using "1.prems" by (simp_all add: playable_def v1_def v2_def)
    show ?thesis
    proof (cases "fst (fetch v) = Some 0x40")
      case False
      then have "runBody v cycles = Inr (Break (v1\<lparr> halted := True \<rparr>, cycles + 1))"
        by (auto simp: runBody_def fetch_def Let_def v1_def)
      with True p1 show ?thesis
        by (simp add: runLoop.simps [of budget v cycles])
    next
      case sys: True
      obtain v3 where v3: "syscall (fst (fetch v1)) v2 = Inr v3" "playable v3"
        using syscall_returns [OF p2] by blast
      have body: "runBody v cycles = Inr (Continue (v3, cycles + 2))"
        using sys v3 by (auto simp: runBody_def fetch_def Let_def v1_def v2_def split: if_splits)
      from "1.IH" [OF True body refl refl v3(2)] True body show ?thesis
        by (simp add: runLoop.simps [of budget v cycles])
    qed
  qed
qed

lemma runFrame_entry_flag: "runFrame cb (v\<lparr> halted := h \<rparr>) = runFrame cb v"
  by (cases cb) (simp_all add: runFrame_def frameBudget_def)

lemma runFrame_sets_halted: "runFrame cb v = Inr (v', c) \<Longrightarrow> halted v'"
  by (auto simp: runFrame_def Let_def split: sum.splits)

lemma runFrame_returns:
  assumes "playable v"
  shows "\<exists>v' c. runFrame cb v = Inr (v', c) \<and> halted v' \<and> playable v'"
proof -
  have "playable (v\<lparr> halted := False \<rparr>)"
    using assms by (simp add: playable_def)
  from runLoop_returns [OF this, of "frameBudget cb v" 0]
  show ?thesis
    by (auto simp: runFrame_def Let_def playable_def)
qed

lemma runReaches_result:
  "runReaches budget v0 st \<Longrightarrow>
   runLoop budget (v0\<lparr> halted := False \<rparr>) 0 = runLoop budget (fst st) (snd st)"
proof (induction rule: runReaches.induct)
  case start
  then show ?case by simp
next
  case (step v c v' c')
  then show ?case by (simp add: runLoop.simps [of budget v c])
qed

lemma runLoop_cycles:
  "runLoop budget v cycles = Inr (v', c') \<Longrightarrow> c' \<le> max cycles (budget + 1)"
proof (induction budget v cycles rule: runLoop.induct)
  case (1 budget v cycles)
  show ?case
  proof (cases "\<not> halted v \<and> cycles < budget")
    case False
    with "1.prems" show ?thesis by (auto simp: runLoop_exit)
  next
    case True
    show ?thesis
    proof (cases "runBody v cycles")
      case (Inl e)
      with True "1.prems" show ?thesis by (simp add: runLoop.simps [of budget v cycles])
    next
      case (Inr s)
      show ?thesis
      proof (cases s)
        case (Break p)
        with Inr True "1.prems" have "p = (v', c')"
          by (simp add: runLoop.simps [of budget v cycles])
        with Inr Break have "c' = cycles + 1" by (auto dest: runBody_cycles)
        with True show ?thesis by simp
      next
        case (Continue p)
        obtain v2 c2 where p: "p = (v2, c2)" by (cases p)
        have c2: "c2 = cycles + 2"
          using Inr Continue p by (auto dest: runBody_cycles)
        have "runLoop budget v2 c2 = Inr (v', c')"
          using True Inr Continue p "1.prems" by (simp add: runLoop.simps [of budget v cycles])
        from "1.IH" [OF True Inr Continue p [symmetric] this] c2 True show ?thesis
          by simp
      qed
    qed
  qed
qed

lemmas vm_eval = newPPUVM_def setIO_def snakeInit_def spawnApple_def spawnTries.simps randU32_def
  cellKey_def onDraw_def snakeTick_def snakeAdvance_def wantDir_def Let_def

section \<open>Claims about the interpreter and the game\<close>

text \<open>
  C1 (as stated, refuted). After \<open>INIT\<close> on the machine with \<open>osId = 0x534E414B\<close> the first
  \<open>TICK\<close> with command 0 and tick register 1 does not move the snake: \<open>snakeInit\<close> leaves
  the game paused, and a paused \<open>TICK\<close> only records the tick. The body stays
  \<open>[(10,12),(10,13),(10,14)]\<close> instead of becoming \<open>[(10,11),(10,12),(10,13)]\<close>.
\<close>
theorem first_tick_after_init_counterexample:
  "snakeInit snakVM = Inr snakStart \<and>
   snakeTick (setIO 0 1 0 snakStart) =
     Inr (snakStart\<lparr> ioTick := 1, draws := 2, render := (render snakStart)\<lparr> lastTick := 1 \<rparr> \<rparr>) \<and>
   snake (render (snakStart\<lparr> ioTick := 1, draws := 2,
                    render := (render snakStart)\<lparr> lastTick := 1 \<rparr> \<rparr>)) \<noteq>
     [(10, 11), (10, 12), (10, 13)]"
  by (simp add: vm_eval)

text \<open>
  C1 (amended). For a machine constructed with \<open>osId = 0x534E414B\<close> (any entry point, any
  bytecode): \<open>INIT\<close> sets the body to \<open>[(10,12),(10,13),(10,14)]\<close>, score 0, seeds the PRNG
  with \<open>0xA5A5A5A5 XOR 0x534E414B\<close> and draws the apple from it (one xorshift step gives
  \<open>0xC4BA5B75\<close>, hence the apple \<open>(5, 2)\<close>), and leaves the game paused. The first \<open>TICK\<close>
  with command 0 and tick 1 therefore leaves body and score as they are; the first \<open>TICK\<close>
  with command 5 (start) and tick 1, which changes no direction, moves the snake one cell
  upward to \<open>[(10,11),(10,12),(10,13)]\<close> with score 0.
\<close>
theorem snake_scenario:
  "let V = newPPUVM \<lparr> entryPoint = ep, osId = 0x534E414B \<rparr> bc;
       I = V\<lparr> prng := 0xC4BA5B75, draws := 1,
              render := (render V)\<lparr> paused := True, apple := (5, 2) \<rparr> \<rparr>;
       T0 = I\<lparr> ioCmd := 0, ioTick := 1, draws := 2, render := (render I)\<lparr> lastTick := 1 \<rparr> \<rparr>;
       T5 = I\<lparr> ioCmd := 5, ioTick := 1, draws := 2,
               render := (render I)\<lparr> lastTick := 1, paused := False,
                                    snake := [(10, 11), (10, 12), (10, 13)] \<rparr> \<rparr>
   in snakeInit V = Inr I \<and>
      snake (render I) = [(10, 12), (10, 13), (10, 14)] \<and> score (render I) = 0 \<and>
      paused (render I) \<and>
      randU32 (V\<lparr> prng := 0xA5A5A5A5 XOR 0x534E414B \<rparr>) = (0xC4BA5B75, V\<lparr> prng := 0xC4BA5B75 \<rparr>) \<and>
      apple (render I) =
        (uint (0xC4BA5B75 :: u32) mod 20, uint (drop_bit 16 (0xC4BA5B75 :: u32)) mod 20) \<and>
      snakeTick (setIO 0 1 0 I) = Inr T0 \<and>
      snake (render T0) = [(10, 12), (10, 13), (10, 14)] \<and> score (render T0) = 0 \<and>
      snakeTick (setIO 5 1 0 I) = Inr T5 \<and>
      snake (render T5) = [(10, 11), (10, 12), (10, 13)] \<and> score (render T5) = 0"
  by (simp add: vm_eval)

text \<open>
  C5. Idempotent replay: once a \<open>TICK\<close> has been processed with the tick register at some
  value, a further \<open>TICK\<close> with the tick register unchanged returns the machine exactly as
  it was (snake, apple, directions, scores, flags, last tick, PRNG, and no redraw),
  whatever the command and mode registers hold by then.
\<close>
theorem tick_replay_is_noop:
  assumes "snakeTick v = Inr v'"
  shows "snakeTick v' = Inr v' \<and>
         snakeTick (v'\<lparr> ioCmd := c, modeBits := m \<rparr>) = Inr (v'\<lparr> ioCmd := c, modeBits := m \<rparr>)"
proof -
  have "snakeTick (v'\<lparr> ioCmd := ioCmd v', modeBits := modeBits v' \<rparr>) =
        Inr (v'\<lparr> ioCmd := ioCmd v', modeBits := modeBits v' \<rparr>)"
    using assms by (rule snakeTick_replay)
  then have "snakeTick v' = Inr v'" by simp
  with snakeTick_replay [OF assms] show ?thesis by simp
qed

theorem tick_replay_is_noop_witness:
  "snakeTick (setIO 5 1 0 snakStart) =
     Inr (snakStart\<lparr> ioCmd := 5, ioTick := 1, draws := 2,
            render := (render snakStart)\<lparr> lastTick := 1, paused := False,
                        snake := [(10, 11), (10, 12), (10, 13)] \<rparr> \<rparr>) \<and>
   snakeTick (snakStart\<lparr> ioCmd := 5, ioTick := 1, draws := 2,
            render := (render snakStart)\<lparr> lastTick := 1, paused := False,
                        snake := [(10, 11), (10, 12), (10, 13)] \<rparr> \<rparr>) =
     Inr (snakStart\<lparr> ioCmd := 5, ioTick := 1, draws := 2,
            render := (render snakStart)\<lparr> lastTick := 1, paused := False,
                        snake := [(10, 11), (10, 12), (10, 13)] \<rparr> \<rparr>)"
proof -
  have h: "snakeTick (setIO 5 1 0 snakStart) =
     Inr (snakStart\<lparr> ioCmd := 5, ioTick := 1, draws := 2,
            render := (render snakStart)\<lparr> lastTick := 1, paused := False,
                        snake := [(10, 11), (10, 12), (10, 13)] \<rparr> \<rparr>)"
    by (simp add: vm_eval)
  from tick_replay_is_noop [OF h] h show ?thesis by blast
qed

text \<open>
  C6. In a \<open>TICK\<close> that is not a replay, a command in 1..4 selects the direction
  1 \<mapsto> 0 (up), 2 \<mapsto> 2 (down), 3 \<mapsto> 3 (left), 4 \<mapsto> 1 (right), and the pending direction
  becomes that direction exactly when \<open>(want + 2) mod 4\<close> differs from the current
  direction; otherwise it keeps its value. The instance that follows is the case named
  in the claim: heading right, command 3 (left) leaves the pending direction at 1,
  command 1 (up) sets it to 0.
\<close>
theorem pending_direction_update:
  assumes "playable v" "ioTick v \<noteq> lastTick (render v)" "1 \<le> ioCmd v" "ioCmd v \<le> 4"
  shows "wantDir 1 pd = 0 \<and> wantDir 2 pd = 2 \<and> wantDir 3 pd = 3 \<and> wantDir 4 pd = 1 \<and>
         (\<exists>v'. snakeTick v = Inr v' \<and>
           pendingDir (render v') =
             (if (wantDir (ioCmd v) (pendingDir (render v)) + 2) mod 4 \<noteq> dir (render v)
              then wantDir (ioCmd v) (pendingDir (render v)) else pendingDir (render v)))"
  using snakeTick_pending [OF assms] by (simp add: wantDir_def)

theorem pending_direction_update_witness:
  "playable (heading_right\<lparr> ioCmd := 3 \<rparr>) \<and>
   (\<exists>v'. snakeTick (heading_right\<lparr> ioCmd := 3 \<rparr>) = Inr v' \<and> pendingDir (render v') = 1) \<and>
   (\<exists>v'. snakeTick (heading_right\<lparr> ioCmd := 1 \<rparr>) = Inr v' \<and> pendingDir (render v') = 0)"
proof -
  have p: "playable (heading_right\<lparr> ioCmd := c \<rparr>)" for c
    by (simp add: playable_def newPPUVM_def)
  have t: "ioTick (heading_right\<lparr> ioCmd := c \<rparr>) \<noteq> lastTick (render (heading_right\<lparr> ioCmd := c \<rparr>))" for c
    by (simp add: newPPUVM_def)
  have "\<exists>v'. snakeTick (heading_right\<lparr> ioCmd := 3 \<rparr>) = Inr v' \<and> pendingDir (render v') = 1"
    using pending_direction_update [OF p [of 3] t [of 3], of 0] by (simp add: wantDir_def newPPUVM_def)
  moreover
  have "\<exists>v'. snakeTick (heading_right\<lparr> ioCmd := 1 \<rparr>) = Inr v' \<and> pendingDir (render v') = 0"
    using pending_direction_update [OF p [of 1] t [of 1], of 0] by (simp add: wantDir_def newPPUVM_def)
  ultimately show ?thesis using p by blast
qed

text \<open>
  C7. \<open>runFrame\<close> is a total function of the bytecode, the program counter and the
  budget, and its loop body runs at most \<open>budget\<close> times, where the budget is the 32-bit
  value \<open>frameBudget\<close> of the argument, which is at most the argument when that is a
  natural number; the cycle count returned is at most \<open>budget + 1\<close>. From any loop state
  the body runs at most \<open>budget - cycles\<close> more times, and once the cycle count has
  reached the budget the loop returns at once, halted or not.
\<close>
theorem runFrame_iterations_bounded:
  "runIters (frameBudget cb v) (v\<lparr> halted := False \<rparr>) 0 \<le> frameBudget cb v \<and>
   frameBudget (Some (int n)) v \<le> n \<and>
   frameBudget cb v < 2 ^ 32 \<and>
   (case runFrame cb v of Inl e \<Rightarrow> True | Inr (v', c) \<Rightarrow> c \<le> frameBudget cb v + 1) \<and>
   runIters budget w cycles \<le> budget - cycles \<and>
   runIters budget w (budget + k) = 0 \<and>
   runLoop budget w (budget + k) = Inr (w, budget + k)"
proof -
  have "runIters (frameBudget cb v) (v\<lparr> halted := False \<rparr>) 0 \<le> frameBudget cb v - 0"
    by (rule runIters_bound)
  moreover have "frameBudget cb v < 2 ^ 32"
    by (simp add: frameBudget_def nat_less_iff)
  moreover have "frameBudget (Some (int n)) v \<le> n"
  proof -
    have "int n mod 2 ^ 32 \<le> int n"
      by (rule zmod_le_nonneg_dividend) simp
    then show ?thesis by (simp add: frameBudget_def)
  qed
  moreover have "case runFrame cb v of Inl e \<Rightarrow> True | Inr (v', c) \<Rightarrow> c \<le> frameBudget cb v + 1"
  proof (cases "runLoop (frameBudget cb v) (v\<lparr> halted := False \<rparr>) 0")
    case (Inl e)
    then show ?thesis by (simp add: runFrame_def)
  next
    case (Inr r)
    obtain v' c where r: "r = (v', c)" by (cases r)
    from runLoop_cycles [OF Inr [unfolded r]] have "c \<le> frameBudget cb v + 1" by simp
    with Inr r show ?thesis by (simp add: runFrame_def)
  qed
  ultimately show ?thesis
    by (simp add: runIters_bound runLoop_budget_reached)
qed

text \<open>
  C8 (as stated, refuted). The halt after an invalid fetch does not outlast the invocation
  of \<open>runFrame\<close> in which it happens. On the freshly constructed machine with bytecode
  \<open>99 40 02 01\<close>, a first \<open>runFrame\<close> fetches \<open>0x99\<close>, which is neither \<open>HALT\<close> nor
  \<open>SYSCALL\<close>, and returns the machine halted with \<open>pc = 1\<close>. The host calls \<open>setIO\<close> and
  \<open>runFrame\<close> again on every frame: the second \<open>runFrame\<close> clears the halted flag at entry,
  fetches \<open>SYSCALL TICK\<close> behind the invalid opcode and dispatches it, and the snake moves
  from \<open>[(10,12),(10,13),(10,14)]\<close> to \<open>[(10,11),(10,12),(10,13)]\<close>: an instruction is
  dispatched and a syscall mutates the game state after the offending fetch.
\<close>
theorem halted_cleared_by_next_frame_counterexample:
  "runFrame (Some 10000) tickAfterBadVM = Inr (tickAfterBadVM\<lparr> pc := 1, halted := True \<rparr>, 1) \<and>
   runFrame (Some 10000) (setIO 0 1 0 (tickAfterBadVM\<lparr> pc := 1, halted := True \<rparr>)) =
     Inr (tickAfterBadVM\<lparr> pc := 4, halted := True, ioTick := 1, draws := 1,
            render := (render tickAfterBadVM)\<lparr> snake := [(10, 11), (10, 12), (10, 13)],
                                                  lastTick := 1 \<rparr> \<rparr>, 3) \<and>
   snake (render tickAfterBadVM) = [(10, 12), (10, 13), (10, 14)]"
  by (simp add: runFrame_def frameBudget_def runLoop.simps runBody_def fetch_def syscall_def vm_eval)

text \<open>
  C8 (amended). Fail-closed within an invocation: when, at any point of an invocation of
  \<open>runFrame\<close>, the loop fetches a byte that is neither \<open>HALT\<close> nor \<open>SYSCALL\<close> (or nothing,
  beyond the buffer), or fetches \<open>SYSCALL\<close> followed by an id other than 1 and 2, that
  iteration is the last one of the invocation, and the machine \<open>runFrame\<close> returns is the
  machine at the fetch with the program counter moved past the fetched bytes and the
  halted flag set: the render state, the PRNG and the draw count are those at the fetch.
  The first instance below has an \<open>INIT\<close> before the invalid opcode and a \<open>SYSCALL INIT\<close>
  after it, which is not executed in that invocation.
\<close>
theorem fail_closed_after_bad_fetch:
  assumes "runReaches (frameBudget cb v0) v0 (v, cycles)"
      and "\<not> halted v" "cycles < frameBudget cb v0"
  shows "(fst (fetch v) \<noteq> Some 0x01 \<and> fst (fetch v) \<noteq> Some 0x40 \<longrightarrow>
            runFrame cb v0 = Inr (v\<lparr> pc := pc v + 1, halted := True \<rparr>, cycles + 1) \<and>
            runIters (frameBudget cb v0) v cycles = 1) \<and>
         (fst (fetch v) = Some 0x40 \<and> fst (fetch (snd (fetch v))) \<noteq> Some 0x01 \<and>
          fst (fetch (snd (fetch v))) \<noteq> Some 0x02 \<longrightarrow>
            runFrame cb v0 = Inr (v\<lparr> pc := pc v + 2, halted := True \<rparr>, cycles + 2) \<and>
            runIters (frameBudget cb v0) v cycles = 1)"
proof -
  have "runFrame cb v0 =
      (case runLoop (frameBudget cb v0) v cycles of
         Inl e \<Rightarrow> Inl e | Inr (v', c) \<Rightarrow> Inr (v'\<lparr> halted := True \<rparr>, c))"
    using runReaches_result [OF assms(1)] by (simp add: runFrame_def)
  then show ?thesis
    using runLoop_bad_opcode [OF assms(2,3)] runLoop_bad_syscall [OF assms(2,3)] by simp
qed

theorem fail_closed_after_bad_fetch_witness:
  "runReaches 10000 lateBadVM
     (lateBadVM\<lparr> pc := 2, prng := 0xC4BA5B75, draws := 1,
                  render := (render lateBadVM)\<lparr> paused := True, apple := (5, 2) \<rparr> \<rparr>, 2) \<and>
   runFrame (Some 10000) lateBadVM =
     Inr (lateBadVM\<lparr> pc := 3, halted := True, prng := 0xC4BA5B75, draws := 1,
                     render := (render lateBadVM)\<lparr> paused := True, apple := (5, 2) \<rparr> \<rparr>, 3) \<and>
   runFrame (Some 10000) badVM = Inr (badVM\<lparr> pc := 1, halted := True \<rparr>, 1) \<and>
   runFrame (Some 10000) (badVM\<lparr> pc := 1 \<rparr>) = Inr (badVM\<lparr> pc := 3, halted := True \<rparr>, 2)"
proof -
  have fb: "frameBudget (Some 10000) w = 10000" for w
    by (simp add: frameBudget_def)
  have s0: "runReaches 10000 lateBadVM (lateBadVM\<lparr> halted := False \<rparr>, 0)"
    by (rule runReaches.start)
  have b0: "runBody (lateBadVM\<lparr> halted := False \<rparr>) 0 =
      Inr (Continue (lateBadVM\<lparr> pc := 2, prng := 0xC4BA5B75, draws := 1,
                  render := (render lateBadVM)\<lparr> paused := True, apple := (5, 2) \<rparr> \<rparr>, 2))"
    by (simp add: runBody_def fetch_def syscall_def vm_eval)
  have s1: "runReaches 10000 lateBadVM
     (lateBadVM\<lparr> pc := 2, prng := 0xC4BA5B75, draws := 1,
                  render := (render lateBadVM)\<lparr> paused := True, apple := (5, 2) \<rparr> \<rparr>, 2)"
    by (rule runReaches.step [OF s0 _ _ b0]) (simp_all add: newPPUVM_def)
  have late: "runFrame (Some 10000) lateBadVM =
     Inr (lateBadVM\<lparr> pc := 3, halted := True, prng := 0xC4BA5B75, draws := 1,
                     render := (render lateBadVM)\<lparr> paused := True, apple := (5, 2) \<rparr> \<rparr>, 3)"
    using fail_closed_after_bad_fetch [where cb = "Some 10000", unfolded fb, OF s1]
    by (simp add: fetch_def newPPUVM_def)
  have e0: "runReaches 10000 badVM (badVM, 0)"
    using runReaches.start [of 10000 badVM] by (simp add: newPPUVM_def)
  have first: "runFrame (Some 10000) badVM = Inr (badVM\<lparr> pc := 1, halted := True \<rparr>, 1)"
    using fail_closed_after_bad_fetch [where cb = "Some 10000", unfolded fb, OF e0]
    by (simp add: fetch_def newPPUVM_def)
  have e1: "runReaches 10000 (badVM\<lparr> pc := 1 \<rparr>) (badVM\<lparr> pc := 1 \<rparr>, 0)"
    using runReaches.start [of 10000 "badVM\<lparr> pc := 1 \<rparr>"] by (simp add: newPPUVM_def)
  have second: "runFrame (Some 10000) (badVM\<lparr> pc := 1 \<rparr>) = Inr (badVM\<lparr> pc := 3, halted := True \<rparr>, 2)"
    using fail_closed_after_bad_fetch [where cb = "Some 10000", unfolded fb, OF e1]
    by (simp add: fetch_def newPPUVM_def)
  from s1 late first second show ?thesis by blast
qed

text \<open>
  C9. \<open>runFrame\<close> ignores the halted flag it finds (it clears it at entry) and returns a
  halted machine, whatever stopped the loop; on a playable machine it does return. The
  instance below runs a second invocation on the machine a first one left halted at an
  invalid opcode: it fetches the next bytes and executes \<open>INIT\<close>.
\<close>
theorem runFrame_resets_and_sets_halted:
  "runFrame cb (v\<lparr> halted := h \<rparr>) = runFrame cb v \<and>
   (playable v \<longrightarrow> (\<exists>v' c. runFrame cb v = Inr (v', c) \<and> halted v')) \<and>
   (\<forall>v' c. runFrame cb v = Inr (v', c) \<longrightarrow> halted v')"
  using runFrame_entry_flag [where cb = cb and v = v and h = h] runFrame_returns [where v = v and cb = cb]
    runFrame_sets_halted [where cb = cb and v = v]
  by blast

theorem runFrame_resets_and_sets_halted_witness:
  "playable resumeVM \<and>
   runFrame (Some 10000) resumeVM = Inr (resumeVM\<lparr> pc := 1, halted := True \<rparr>, 1) \<and>
   runFrame (Some 10000) (resumeVM\<lparr> pc := 1, halted := True \<rparr>) =
     runFrame (Some 10000) (resumeVM\<lparr> pc := 1 \<rparr>) \<and>
   runFrame (Some 10000) (resumeVM\<lparr> pc := 1 \<rparr>) =
     Inr (resumeVM\<lparr> pc := 4, halted := True, prng := 0xC4BA5B75, draws := 1,
            render := (render resumeVM)\<lparr> paused := True, apple := (5, 2) \<rparr> \<rparr>, 3)"
proof -
  have p: "playable resumeVM"
    by (simp add: playable_def newPPUVM_def)
  have r1: "runFrame (Some 10000) resumeVM = Inr (resumeVM\<lparr> pc := 1, halted := True \<rparr>, 1)"
    by (simp add: runFrame_def frameBudget_def runLoop.simps runBody_def fetch_def newPPUVM_def Let_def)
  have r2: "runFrame (Some 10000) (resumeVM\<lparr> pc := 1 \<rparr>) =
     Inr (resumeVM\<lparr> pc := 4, halted := True, prng := 0xC4BA5B75, draws := 1,
            render := (render resumeVM)\<lparr> paused := True, apple := (5, 2) \<rparr> \<rparr>, 3)"
    by (simp add: runFrame_def frameBudget_def runLoop.simps runBody_def fetch_def syscall_def vm_eval)
  from runFrame_resets_and_sets_halted
         [where cb = "Some 10000" and v = "resumeVM\<lparr> pc := 1 \<rparr>" and h = True] p r1 r2
  show ?thesis by simp
qed

text \<open>
  C10. \<open>score = length snake - 3\<close> holds after every \<open>INIT\<close> and is preserved by every
  \<open>TICK\<close>; on playable states \<open>TICK\<close> returns, so the invariant is carried along every
  run. The instance below is a growth move.
\<close>
theorem score_tracks_length:
  "(\<exists>v1. snakeInit v = Inr v1 \<and> playable v1 \<and> scoreInv v1) \<and>
   (playable v \<and> scoreInv v \<longrightarrow> (\<exists>v'. snakeTick v = Inr v' \<and> playable v' \<and> scoreInv v')) \<and>
   (\<forall>v'. scoreInv v \<and> snakeTick v = Inr v' \<longrightarrow> scoreInv v')"
proof -
  have "\<exists>v1. snakeInit v = Inr v1 \<and> playable v1 \<and> scoreInv v1"
    using snakeInit_playable [of v] snakeInit_frame [of v] by (auto simp: scoreInv_def)
  moreover have "scoreInv v'" if "scoreInv v" "snakeTick v = Inr v'" for v'
  proof -
    from that(1) have "score (render v) + 3 = length (snake (render v))"
      by (simp add: scoreInv_def)
    from snakeTick_score [OF that(2) this] show ?thesis
      by (simp add: scoreInv_def)
  qed
  ultimately show ?thesis
    using snakeTick_returns [of v] by blast
qed

theorem score_tracks_length_witness:
  "playable appleAhead \<and> scoreInv appleAhead \<and>
   snakeTick appleAhead =
     Inr (appleAhead\<lparr> prng := 0x75432F7F, draws := 2,
            render := (render appleAhead)\<lparr> lastTick := 7, score := 1, high := 1, apple := (3, 19),
                        snake := [(10, 11), (10, 12), (10, 13), (10, 14)] \<rparr> \<rparr>) \<and>
   scoreInv (appleAhead\<lparr> prng := 0x75432F7F, draws := 2,
            render := (render appleAhead)\<lparr> lastTick := 7, score := 1, high := 1, apple := (3, 19),
                        snake := [(10, 11), (10, 12), (10, 13), (10, 14)] \<rparr> \<rparr>)"
proof -
  have p: "playable appleAhead" and s: "scoreInv appleAhead"
    by (simp_all add: playable_def scoreInv_def newPPUVM_def)
  have t: "snakeTick appleAhead =
     Inr (appleAhead\<lparr> prng := 0x75432F7F, draws := 2,
            render := (render appleAhead)\<lparr> lastTick := 7, score := 1, high := 1, apple := (3, 19),
                        snake := [(10, 11), (10, 12), (10, 13), (10, 14)] \<rparr> \<rparr>)"
    by (simp add: vm_eval)
  from score_tracks_length [of appleAhead] p s t show ?thesis by blast
qed

section \<open>Properties of the block codec and the marker walk\<close>

lemma sint_len: "n < 2 ^ 31 \<Longrightarrow> sint (of_nat n :: u32) = int n"
  by (simp add: signed_of_nat signed_take_bit_int_eq_self)

lemma woi_sint: "word_of_int (sint w) = (w :: u32)"
  by simp

lemma unat_up16: "unat (ucast (w :: u16) :: u32) = unat w"
proof -
  have "unat w < 2 ^ 16" using unsigned_less [of w] by simp
  then have "unat w < 2 ^ 32" by simp
  then show ?thesis by (simp add: unsigned_ucast_eq take_bit_nat_eq_self)
qed

lemma unat_of_nat16: "n \<le> 0xFFFF \<Longrightarrow> unat (of_nat n :: u16) = n"
  by (simp add: unat_of_nat)

lemma be16_roundtrip:
  "push_bit 8 (ucast (ucast (drop_bit 8 w) :: u8) :: u32) OR ucast (ucast w :: u8) = ucast (w :: u16)"
proof (rule bit_word_eqI)
  fix n assume "n < LENGTH(32)"
  show "bit (push_bit 8 (ucast (ucast (drop_bit 8 w) :: u8) :: u32) OR ucast (ucast w :: u8)) n = bit (ucast w :: u32) n"
    by (cases "n < 8"; cases "n < 16") (auto simp: bit_simps dest: bit_imp_le_length)
qed

lemma be32_roundtrip:
  "push_bit 24 (ucast (ucast (drop_bit 24 w) :: u8) :: u32) OR push_bit 16 (ucast (ucast (drop_bit 16 w) :: u8))
     OR push_bit 8 (ucast (ucast (drop_bit 8 w) :: u8)) OR ucast (ucast w :: u8) = (w :: u32)"
proof (rule bit_word_eqI)
  fix n assume "n < LENGTH(32)"
  then have n: "n < 32" by simp
  consider "n < 8" | "8 \<le> n" "n < 16" | "16 \<le> n" "n < 24" | "24 \<le> n" "n < 32"
    using n by linarith
  then show "bit (push_bit 24 (ucast (ucast (drop_bit 24 w) :: u8) :: u32) OR push_bit 16 (ucast (ucast (drop_bit 16 w) :: u8))
     OR push_bit 8 (ucast (ucast (drop_bit 8 w) :: u8)) OR ucast (ucast w :: u8)) n = bit w n"
    by cases (auto simp: bit_simps)
qed

lemma readU32BE_write:
  "readU32BE (pre @ writeU32BE w @ rest) (length pre) = sint w"
  by (simp add: readU32BE_def writeU32BE_def nth_append be32_roundtrip)

lemma readU16BE_write:
  "n \<le> 0xFFFF \<Longrightarrow> readU16BE (pre @ writeU16BE n @ rest) (length pre) = n"
  by (simp add: readU16BE_def writeU16BE_def nth_append be16_roundtrip unat_up16 unat_of_nat16)

lemma flagByte_bits:
  "flagByte a AND 4 = 0" "(flagByte a AND 1 \<noteq> 0) = argCrc a"
  by (cases "argCrc a"; cases "argCompressed a"; simp add: flagByte_def)+

lemma length_writeU32BE [simp]: "length (writeU32BE w) = 4"
  by (simp add: writeU32BE_def)

lemma length_writeU16BE [simp]: "length (writeU16BE n) = 2"
  by (simp add: writeU16BE_def)

lemma length_buildApp15Block:
  "length (buildApp15Block a) = 12 + length (argPayload a) + (if argCrc a then 4 else 0)"
  by (simp add: buildApp15Block_def Let_def)

lemma buildApp15Block_magic:
  "buildApp15Block a ! 0 = 0x50" "buildApp15Block a ! 1 = 0x50"
  "buildApp15Block a ! 2 = 0x55" "buildApp15Block a ! 3 = 0x4a"
  by (simp_all add: buildApp15Block_def Let_def nth_append)

lemma ppujBlock_build:
  assumes len: "length (argPayload a) < 2 ^ 31"
      and tot: "t + int (length (argPayload a)) \<le> maxTotal"
  shows "ppujBlock (buildApp15Block a) t maxTotal = Inr (decoded a, t + int (length (argPayload a)))"
proof -
  define pre where "pre = [0x50, 0x50, 0x55, 0x4a, of_int (argVersion a), of_int (argBlockType a),
                           flagByte a, 0 :: u8]"
  define L where "L = (of_nat (length (argPayload a)) :: u32)"
  define body where "body = pre @ writeU32BE L @ argPayload a"
  define pl where "pl = buildApp15Block a"
  have pl: "pl = (if argCrc a then body @ writeU32BE (crc32 body) else body)"
    by (simp add: pl_def buildApp15Block_def Let_def body_def pre_def L_def)
  have lpre: "length pre = 8" by (simp add: pre_def)
  have lbody: "length body = 12 + length (argPayload a)" by (simp add: body_def lpre)
  have pl_pre: "pl = pre @ writeU32BE L @ (if argCrc a then argPayload a @ writeU32BE (crc32 body) else argPayload a)"
    by (simp add: pl body_def)
  have n: "readU32BE pl 8 = int (length (argPayload a))"
  proof -
    have "readU32BE pl 8 = sint L"
      unfolding pl_pre lpre [symmetric] by (rule readU32BE_write)
    also have "\<dots> = int (length (argPayload a))"
      unfolding L_def by (rule sint_len [OF len])
    finally show ?thesis .
  qed
  have b4: "pl ! 4 = of_int (argVersion a)" and b5: "pl ! 5 = of_int (argBlockType a)"
    and b6: "pl ! 6 = flagByte a"
    by (simp_all add: pl_pre pre_def nth_append)
  have lpl: "int (length pl) = 12 + int (length (argPayload a)) + (if argCrc a then 4 else 0)"
    by (simp add: pl lbody)
  have sub_body: "subarray pl 0 (12 + length (argPayload a)) = body"
    by (simp add: subarray_def pl lbody)
  have sub_payload: "subarray pl 12 (12 + length (argPayload a)) = argPayload a"
    by (simp add: subarray_def pl body_def lpre)
  have crc: "word_of_int (readU32BE pl (12 + length (argPayload a))) = crc32 body" if "argCrc a"
  proof -
    have "readU32BE pl (12 + length (argPayload a)) = readU32BE (body @ writeU32BE (crc32 body) @ []) (length body)"
      using that by (simp add: pl lbody)
    also have "\<dots> = sint (crc32 body)"
      by (rule readU32BE_write)
    finally show ?thesis by simp
  qed
  show ?thesis
    unfolding pl_def [symmetric]
    using tot crc
    by (simp add: ppujBlock_def Let_def b4 b5 b6 flagByte_bits n lpl nat_add_distrib
                  sub_body sub_payload decoded_def)
qed

lemma skipFill_FF:
  "p \<le> i \<Longrightarrow> i < skipFill u8 p \<Longrightarrow> u8 ! i = 0xFF \<and> i < length u8"
proof (induction u8 p rule: skipFill.induct)
  case (1 u8 p)
  show ?case
  proof (cases "p < length u8 \<and> u8 ! p = 0xFF")
    case True
    then have eq: "skipFill u8 p = skipFill u8 (p + 1)"
      by (subst skipFill.simps) simp
    show ?thesis
    proof (cases "i = p")
      case True
      with \<open>p < length u8 \<and> u8 ! p = 0xFF\<close> show ?thesis by simp
    next
      case False
      with "1.prems" have "p + 1 \<le> i" by simp
      with "1.IH" [OF True this] "1.prems" eq show ?thesis by simp
    qed
  next
    case False
    then have "skipFill u8 p = p"
      by (subst skipFill.simps) auto
    with "1.prems" show ?thesis by simp
  qed
qed

lemma skipFill_stop: "skipFill u8 p < length u8 \<Longrightarrow> u8 ! skipFill u8 p \<noteq> 0xFF"
proof (induction u8 p rule: skipFill.induct)
  case (1 u8 p)
  show ?case
  proof (cases "p < length u8 \<and> u8 ! p = 0xFF")
    case True
    then have eq: "skipFill u8 p = skipFill u8 (p + 1)"
      by (subst skipFill.simps) simp
    with "1.IH" [OF True] "1.prems" show ?thesis by simp
  next
    case False
    then have "skipFill u8 p = p"
      by (subst skipFill.simps) auto
    with "1.prems" False show ?thesis by simp
  qed
qed

lemma skipFill_run:
  "p \<le> r \<Longrightarrow> (\<forall>i. p \<le> i \<and> i < r \<longrightarrow> i < length u8 \<and> u8 ! i = 0xFF) \<Longrightarrow>
   skipFill u8 p = skipFill u8 r"
proof (induction "r - p" arbitrary: p)
  case 0
  then show ?case by simp
next
  case (Suc d)
  then have "p < r" by simp
  with Suc.prems have "p < length u8" "u8 ! p = 0xFF" by auto
  then have "skipFill u8 p = skipFill u8 (p + 1)"
    by (subst skipFill.simps) simp
  moreover have "skipFill u8 (p + 1) = skipFill u8 r"
    using Suc.hyps(2) Suc.prems \<open>p < r\<close> by (intro Suc.hyps(1)) auto
  ultimately show ?case by simp
qed

lemma skipFill_one:
  "p + 1 < length u8 \<Longrightarrow> u8 ! p = 0xFF \<Longrightarrow> u8 ! (p + 1) \<noteq> 0xFF \<Longrightarrow> skipFill u8 p = p + 1"
  by (subst skipFill.simps, simp, subst skipFill.simps, simp)

lemma skipFill_prefix:
  assumes agree: "\<forall>i<n. out ! i = base ! i" and lo: "n \<le> length out" and lb: "n \<le> length base"
      and q: "skipFill base p < n"
  shows "skipFill out p = skipFill base p"
proof -
  define q where "q = skipFill base p"
  have pq: "p \<le> q" unfolding q_def by (rule skipFill_ge)
  have "\<forall>i. p \<le> i \<and> i < q \<longrightarrow> i < length out \<and> out ! i = 0xFF"
    using skipFill_FF [of p _ base] agree lo assms(4) unfolding q_def by auto
  then have "skipFill out p = skipFill out q"
    using pq by (intro skipFill_run) auto
  moreover have "base ! q \<noteq> 0xFF"
    unfolding q_def using assms(4) lb by (intro skipFill_stop) simp
  then have "out ! q \<noteq> 0xFF"
    using agree assms(4) unfolding q_def by simp
  then have "skipFill out q = q"
    by (subst skipFill.simps) simp
  ultimately show ?thesis by (simp add: q_def)
qed

lemma sosWalk_result:
  "sosWalk u8 p = Inr s \<Longrightarrow>
     p \<le> s \<and> s + 1 < length u8 \<and> u8 ! s = 0xFF \<and> u8 ! (s + 1) = 0xDA"
proof (induction u8 p rule: sosWalk.induct)
  case (1 u8 p)
  from "1.prems" have p: "p < length u8"
    by (subst (asm) sosWalk.simps) (simp split: if_splits)
  show ?case
  proof (cases "sosBody u8 p")
    case (Inl e)
    with p "1.prems" show ?thesis by (subst (asm) sosWalk.simps) simp
  next
    case (Inr c)
    show ?thesis
    proof (cases c)
      case (Break off)
      with Inr p "1.prems" have off: "off = s"
        by (subst (asm) sosWalk.simps) simp
      define q where "q = skipFill u8 p"
      from Inr Break off have ff: "u8 ! p = 0xFF" and q: "q < length u8" "u8 ! q = 0xDA" "s = q - 1"
        by (auto simp: sosBody_def Let_def q_def split: if_splits)
      have pq: "p < q" unfolding q_def using p ff by (rule skipFill_gt)
      then have "u8 ! (q - 1) = 0xFF"
        using skipFill_FF [of p "q - 1" u8] by (simp add: q_def)
      with pq q show ?thesis by simp
    next
      case (Continue p')
      with Inr p "1.prems" have rec: "sosWalk u8 p' = Inr s"
        by (subst (asm) sosWalk.simps) simp
      from sosBody_advances [OF p] Inr Continue have "p < p'" by simp
      with "1.IH" [OF p Inr Continue rec] show ?thesis by simp
    qed
  qed
qed

lemma parseBody_blocks:
  "parseBody u8 mt (p, t, bs) = Inr (Continue (p', t', bs')) \<Longrightarrow> length bs \<le> length bs'"
  "parseBody u8 mt (p, t, bs) = Inr (Break (p', t', bs')) \<Longrightarrow> bs' = bs"
  by (auto simp: parseBody_def Let_def split: if_splits sum.splits)

lemma parseWalk_grows:
  "parseWalk u8 mt st = Inr r \<Longrightarrow> length (snd (snd st)) \<le> length r"
proof (induction u8 mt st rule: parseWalk.induct)
  case (1 u8 mt st)
  obtain p t bs where st: "st = (p, t, bs)" by (cases st)
  show ?case
  proof (cases "p < length u8")
    case False
    with "1.prems" st show ?thesis by (subst (asm) parseWalk.simps) simp
  next
    case True
    then have lt: "fst st < length u8" by (simp add: st)
    show ?thesis
    proof (cases "parseBody u8 mt st")
      case (Inl e)
      with lt "1.prems" show ?thesis by (subst (asm) parseWalk.simps) simp
    next
      case (Inr c)
      show ?thesis
      proof (cases c)
        case (Break st')
        obtain p' t' bs' where st': "st' = (p', t', bs')" by (cases st')
        from Inr Break lt "1.prems" have "r = bs'"
          by (subst (asm) parseWalk.simps) (simp add: st')
        with parseBody_blocks(2) [of u8 mt p t bs p' t' bs'] Inr Break st st' show ?thesis by simp
      next
        case (Continue st')
        obtain p' t' bs' where st': "st' = (p', t', bs')" by (cases st')
        from Inr Continue lt "1.prems" have rec: "parseWalk u8 mt st' = Inr r"
          by (subst (asm) parseWalk.simps) simp
        from "1.IH" [OF lt Inr Continue rec] have "length bs' \<le> length r" by (simp add: st')
        with parseBody_blocks(1) [of u8 mt p t bs p' t' bs'] Inr Continue st st' show ?thesis by simp
      qed
    qed
  qed
qed

lemma readU16BE_cong:
  "a ! off = b ! off \<Longrightarrow> a ! (off + 1) = b ! (off + 1) \<Longrightarrow> readU16BE a off = readU16BE b off"
  by (simp add: readU16BE_def)

lemma subarray_prefix:
  assumes "\<forall>i<n. out ! i = base ! i" "n \<le> length out" "n \<le> length base" "e \<le> n"
  shows "subarray out b e = subarray base b e"
proof (rule nth_equalityI)
  show "length (subarray out b e) = length (subarray base b e)"
    using assms by (simp add: subarray_def)
  fix i assume "i < length (subarray out b e)"
  then have "i < e - b" "b + i < n" using assms by (auto simp: subarray_def)
  then show "subarray out b e ! i = subarray base b e ! i"
    using assms by (simp add: subarray_def)
qed

text \<open>A step of the walk over the base that extracts nothing is the same step over the output.\<close>
lemma parseBody_prefix:
  assumes agree: "\<forall>i<n. out ! i = base ! i" and lo: "n \<le> length out" and lb: "n \<le> length base"
      and step: "parseBody base mt0 (p, 0, []) = Inr (Continue (p', 0, []))"
      and p: "p < length base" and p': "p' \<le> n"
  shows "parseBody out mt (p, t, bs) = Inr (Continue (p', t, bs))"
proof -
  define q where "q = skipFill base p"
  from step have ff: "base ! p = 0xFF" and ql: "q < length base"
    by (auto simp: parseBody_def Let_def q_def split: if_splits)
  have pq: "p < q" unfolding q_def using p ff by (rule skipFill_gt)
  have qp': "q < p'"
    using step by (auto simp: parseBody_def Let_def q_def split: if_splits sum.splits)
  have qn: "q < n" using qp' p' by simp
  have sk: "skipFill out p = q"
    unfolding q_def using agree lo lb qn [unfolded q_def] by (rule skipFill_prefix)
  have op: "out ! p = 0xFF" using agree pq qn ff by simp
  have oq: "out ! q = base ! q" using agree qn by simp
  show ?thesis
  proof (cases "(0xD0 \<le> base ! q \<and> base ! q \<le> 0xD7) \<or> base ! q = 0x01")
    case True
    with step have "p' = q + 1" "base ! q \<noteq> 0xDA" "base ! q \<noteq> 0xD9"
      by (auto simp: parseBody_def Let_def q_def split: if_splits sum.splits)
    with True op oq sk qn lo show ?thesis
      by (auto simp: parseBody_def Let_def)
  next
    case False
    define segLen where "segLen = readU16BE base (q + 1)"
    from False step ff ql have m: "base ! q \<noteq> 0xDA" "base ! q \<noteq> 0xD9"
      and seg: "q + 3 \<le> length base" "2 \<le> segLen" "p' = q + 1 + segLen"
      and noblock: "\<not> (base ! q = 0xEF \<and> 12 \<le> length (subarray base (q + 1 + 2) p') \<and>
             subarray base (q + 1 + 2) p' ! 0 = 0x50 \<and> subarray base (q + 1 + 2) p' ! 1 = 0x50 \<and>
             subarray base (q + 1 + 2) p' ! 2 = 0x55 \<and> subarray base (q + 1 + 2) p' ! 3 = 0x4a)"
      by (auto simp: parseBody_def Let_def q_def segLen_def split: if_splits sum.splits)
    have rd: "readU16BE out (q + 1) = segLen"
      unfolding segLen_def using agree seg p' by (intro readU16BE_cong) auto
    have sub: "subarray out (q + 1 + 2) p' = subarray base (q + 1 + 2) p'"
      using agree lo lb p' by (rule subarray_prefix)
    have "q + 3 \<le> length out" "p' \<le> length out" using seg p' lo by auto
    with False m seg noblock rd sub op oq sk qn lo show ?thesis
      by (auto simp: parseBody_def Let_def)
  qed
qed

lemma parseBody_skip:
  "u8 ! p = 0xFF \<Longrightarrow> u8 ! r = 0xFF \<Longrightarrow> skipFill u8 p = skipFill u8 r \<Longrightarrow>
   parseBody u8 mt (p, t, bs) = parseBody u8 mt (r, t, bs)"
  by (simp add: parseBody_def)

lemma parseWalk_skip:
  assumes "p < length u8" "r < length u8" "u8 ! p = 0xFF" "u8 ! r = 0xFF"
      and "skipFill u8 p = skipFill u8 r"
  shows "parseWalk u8 mt (p, t, bs) = parseWalk u8 mt (r, t, bs)"
  using assms parseBody_skip [OF assms(3,4,5), of mt t bs]
  by (simp add: parseWalk.simps [of u8 mt "(p, t, bs)"] parseWalk.simps [of u8 mt "(r, t, bs)"])

lemma walks_agree:
  "sosBody u8 p = Inr (Continue p') \<Longrightarrow> parseBody u8 mt (p, t, bs) = Inr c \<Longrightarrow>
   \<exists>t' bs'. c = Continue (p', t', bs')"
  by (auto simp: sosBody_def parseBody_def Let_def split: if_splits sum.splits)

lemma parseBody_no_block:
  "parseBody u8 mt (p, t, bs) = Inr (Continue (p', t', bs')) \<Longrightarrow> length bs' \<le> length bs \<Longrightarrow>
   t' = t \<and> bs' = bs"
  by (auto simp: parseBody_def Let_def split: if_splits sum.splits)

text \<open>
  Up to the splice point the walk over the output repeats the walk over a base image in
  which parsing finds no block.
\<close>
lemma parseWalk_to_splice:
  "sosWalk base p = Inr s \<Longrightarrow> parseWalk base mt0 (p, 0, []) = Inr [] \<Longrightarrow>
   (\<forall>i. i < s \<longrightarrow> out ! i = base ! i) \<Longrightarrow> s + 1 < length out \<Longrightarrow> out ! s = 0xFF \<Longrightarrow>
   parseWalk out mt (p, t, bs) = parseWalk out mt (s, t, bs)"
proof (induction base p rule: sosWalk.induct)
  case (1 base p)
  note walk = "1.prems"(1) and clean = "1.prems"(2) and agree = "1.prems"(3)
    and lo = "1.prems"(4) and os = "1.prems"(5)
  from sosWalk_result [OF walk] have ps: "p \<le> s" and sb: "s + 1 < length base" by simp_all
  then have p: "p < length base" by simp
  show ?case
  proof (cases "sosBody base p")
    case (Inl e)
    with p walk show ?thesis by (subst (asm) sosWalk.simps) simp
  next
    case (Inr c)
    show ?thesis
    proof (cases c)
      case (Break off)
      with Inr p walk have off: "off = s"
        by (subst (asm) sosWalk.simps) simp
      define q where "q = skipFill base p"
      from Inr Break off have q: "s = q - 1"
        by (auto simp: sosBody_def Let_def q_def split: if_splits)
      have "\<forall>i. p \<le> i \<and> i < s \<longrightarrow> i < length out \<and> out ! i = 0xFF"
        using skipFill_FF [of p _ base] agree lo q by (auto simp: q_def)
      with ps have sk: "skipFill out p = skipFill out s"
        by (intro skipFill_run) auto
      show ?thesis
      proof (cases "p = s")
        case True
        then show ?thesis by simp
      next
        case False
        with ps have "p < s" by simp
        then have "out ! p = 0xFF"
          using skipFill_FF [of p p base] agree q by (simp add: q_def)
        with sk os lo \<open>p < s\<close> show ?thesis
          by (intro parseWalk_skip) auto
      qed
    next
      case (Continue p')
      with Inr p walk have rec: "sosWalk base p' = Inr s"
        by (subst (asm) sosWalk.simps) simp
      from sosWalk_result [OF rec] have p's: "p' \<le> s" by simp
      from sosBody_advances [OF p] Inr Continue have pp': "p < p'" by simp
      obtain c' where pb: "parseBody base mt0 (p, 0, []) = Inr c'"
        using clean p by (subst (asm) parseWalk.simps) (auto split: sum.splits)
      from walks_agree [OF _ pb] Inr Continue obtain t' bs' where c': "c' = Continue (p', t', bs')"
        by auto
      from clean p pb c' have rest: "parseWalk base mt0 (p', t', bs') = Inr []"
        by (subst (asm) parseWalk.simps) simp
      from parseWalk_grows [OF rest] have "length bs' \<le> length ([] :: block list)" by simp
      with parseBody_no_block [OF pb [unfolded c']] have "t' = 0" "bs' = []" by simp_all
      with c' rest have pc: "c' = Continue (p', 0, [])"
        and clean': "parseWalk base mt0 (p', 0, []) = Inr []" by simp_all
      have step: "parseBody out mt (p, t, bs) = Inr (Continue (p', t, bs))"
        using agree _ _ pb [unfolded pc] p p's
        by (rule parseBody_prefix) (use lo sb in auto)
      have "p < length out" using ps lo by simp
      with step have "parseWalk out mt (p, t, bs) = parseWalk out mt (p', t, bs)"
        by (subst parseWalk.simps) simp
      also have "\<dots> = parseWalk out mt (s, t, bs)"
        using "1.IH" [OF p Inr Continue rec clean' agree lo os] .
      finally show ?thesis .
    qed
  qed
qed

lemma app15Segments_ok:
  "\<forall>pl \<in> set pls. length pl + 2 \<le> 0xFFFF \<Longrightarrow> app15Segments pls = Inr (map app15Segment pls)"
  by (induction pls) auto

lemma length_app15Segment [simp]: "length (app15Segment pl) = length pl + 4"
  by (simp add: app15Segment_def)

text \<open>One step of the parse over a segment that holds a built block.\<close>
lemma parseBody_built:
  assumes fits: "length (buildApp15Block a) + 2 \<le> 0xFFFF"
      and tot: "t + int (length (argPayload a)) \<le> mt"
  shows "parseBody (pre @ app15Segment (buildApp15Block a) @ rest) mt (length pre, t, bs) =
         Inr (Continue (length pre + length (app15Segment (buildApp15Block a)),
                        t + int (length (argPayload a)), bs @ [decoded a]))"
proof -
  define B where "B = buildApp15Block a"
  define u8 where "u8 = pre @ app15Segment B @ rest"
  define p where "p = length pre"
  have lB: "12 \<le> length B" by (simp add: B_def length_buildApp15Block)
  have len: "length (argPayload a) < 2 ^ 31"
    using fits by (simp add: length_buildApp15Block split: if_splits)
  have u0: "u8 ! p = 0xFF" and u1: "u8 ! (p + 1) = 0xEF"
    by (simp_all add: u8_def p_def app15Segment_def nth_append)
  have lu: "p + 4 + length B \<le> length u8" by (simp add: u8_def p_def)
  have sk: "skipFill u8 p = p + 1"
    using lu u0 u1 by (intro skipFill_one) auto
  have "u8 = (pre @ [0xFF, 0xEF]) @ writeU16BE (length B + 2) @ (B @ rest)"
    by (simp add: u8_def app15Segment_def)
  then have "readU16BE u8 (p + 2) = length B + 2"
    using readU16BE_write [of "length B + 2" "pre @ [0xFF, 0xEF]" "B @ rest"] fits
    by (simp add: p_def B_def)
  then have rd: "readU16BE u8 (Suc (Suc p)) = length B + 2" by simp
  have sub: "subarray u8 (p + 4) (p + 4 + length B) = B"
    by (simp add: subarray_def u8_def p_def app15Segment_def)
  then have sub': "subarray u8 (Suc (Suc (Suc (Suc p)))) (Suc (Suc (p + (length B + 2)))) = B"
    by (simp add: numeral_eq_Suc add.commute)
  have blk: "ppujBlock B t mt = Inr (decoded a, t + int (length (argPayload a)))"
    unfolding B_def using len tot by (rule ppujBlock_build)
  have magic: "B ! 0 = 0x50" "B ! 1 = 0x50" "B ! 2 = 0x55" "B ! 3 = 0x4a"
    using buildApp15Block_magic [of a] by (simp_all add: B_def)
  have "parseBody u8 mt (p, t, bs) =
          Inr (Continue (p + length (app15Segment B), t + int (length (argPayload a)), bs @ [decoded a]))"
    using u0 u1 lu sk rd sub' blk magic lB
    by (simp add: parseBody_def Let_def)
  then show ?thesis by (simp add: u8_def p_def B_def)
qed

text \<open>The parse over the inserted segments extracts the blocks they were built from.\<close>
lemma parseWalk_built:
  assumes fits: "\<forall>a \<in> set args. length (buildApp15Block a) + 2 \<le> 0xFFFF"
      and tot: "t + (\<Sum>a\<leftarrow>args. int (length (argPayload a))) \<le> mt"
  shows "parseWalk (pre @ concat (map blockSegment args) @ suf) mt
           (length pre, t, bs) =
         parseWalk (pre @ concat (map blockSegment args) @ suf) mt
           (length pre + length (concat (map blockSegment args)),
            t + (\<Sum>a\<leftarrow>args. int (length (argPayload a))), bs @ map decoded args)"
  using assms
proof (induction args arbitrary: pre t bs)
  case Nil
  then show ?case by simp
next
  case (Cons a args)
  define seg where "seg = blockSegment a"
  define X where "X = concat (map blockSegment args)"
  define u8 where "u8 = pre @ seg @ X @ suf"
  have nonneg: "0 \<le> (\<Sum>a\<leftarrow>args. int (length (argPayload a)))"
    by (rule sum_list_nonneg) auto
  have fit1: "length (buildApp15Block a) + 2 \<le> 0xFFFF" using Cons.prems(1) by simp
  have tot1: "t + int (length (argPayload a)) \<le> mt" using Cons.prems(2) nonneg by simp
  have step: "parseBody u8 mt (length pre, t, bs) =
      Inr (Continue (length pre + length seg, t + int (length (argPayload a)), bs @ [decoded a]))"
    unfolding u8_def seg_def blockSegment_def using fit1 tot1 by (rule parseBody_built)
  have "length pre < length u8" by (simp add: u8_def seg_def blockSegment_def)
  with step have "parseWalk u8 mt (length pre, t, bs) =
      parseWalk u8 mt (length (pre @ seg), t + int (length (argPayload a)), bs @ [decoded a])"
    by (subst parseWalk.simps) simp
  also have "\<dots> = parseWalk u8 mt (length (pre @ seg) + length X,
      t + int (length (argPayload a)) + (\<Sum>a\<leftarrow>args. int (length (argPayload a))),
      (bs @ [decoded a]) @ map decoded args)"
    using Cons.IH [of "t + int (length (argPayload a))" "pre @ seg" "bs @ [decoded a]"] Cons.prems
    by (simp add: u8_def X_def add.assoc)
  finally show ?case
    by (simp add: u8_def X_def seg_def add.assoc)
qed

text \<open>At the start-of-scan marker the parse returns what it has.\<close>
lemma parseWalk_at_SOS:
  assumes "p + 1 < length u8" "u8 ! p = 0xFF" "u8 ! (p + 1) = 0xDA"
  shows "parseWalk u8 mt (p, t, bs) = Inr bs"
proof -
  have "skipFill u8 p = p + 1"
    using assms by (intro skipFill_one) auto
  with assms have "parseBody u8 mt (p, t, bs) = Inr (Break (p + 2, t, bs))"
    by (simp add: parseBody_def Let_def)
  with assms show ?thesis
    by (subst parseWalk.simps) simp
qed

lemma blockSegment_head: "blockSegment a ! 0 = 0xFF" "blockSegment a \<noteq> []"
  by (simp_all add: blockSegment_def app15Segment_def)

lemma parseReaches_result:
  "parseReaches u8 mt st \<Longrightarrow> parseCartridge u8 mt = parseWalk u8 mt st"
proof (induction rule: parseReaches.induct)
  case start
  then show ?case by (simp add: parseCartridge_def)
next
  case (step st st')
  then show ?case by (subst (asm) parseWalk.simps) simp
qed

lemma sosReaches_result:
  "sosReaches u8 p \<Longrightarrow> splicePoint u8 = sosWalk u8 p"
proof (induction rule: sosReaches.induct)
  case start
  then show ?case by (simp add: splicePoint_def)
next
  case (step p p')
  then show ?case by (subst (asm) sosWalk.simps) simp
qed

text \<open>The marker the walk reads from \<open>p\<close> when fill bytes lead up to \<open>FF m\<close> at \<open>length pre\<close>.\<close>
lemma skipFill_to_marker:
  assumes u8: "u8 = pre @ 0xFF # m # rest" and m: "m \<noteq> 0xFF"
      and p: "p \<le> length pre" and fill: "\<forall>i. p \<le> i \<and> i < length pre \<longrightarrow> u8 ! i = 0xFF"
  shows "skipFill u8 p = length pre + 1" "u8 ! p = 0xFF" "p < length u8"
        "u8 ! (length pre + 1) = m"
proof -
  have l: "length pre + 1 < length u8" by (simp add: u8)
  have at: "u8 ! length pre = 0xFF" "u8 ! (length pre + 1) = m"
    by (simp_all add: u8 nth_append)
  have "skipFill u8 p = skipFill u8 (length pre)"
    using p fill l by (intro skipFill_run) auto
  also have "\<dots> = length pre + 1"
    using l at m by (intro skipFill_one) auto
  finally show "skipFill u8 p = length pre + 1" .
  show "u8 ! p = 0xFF" using p fill at by (cases "p = length pre") auto
  show "p < length u8" using p l by simp
  show "u8 ! (length pre + 1) = m" by (rule at)
qed

lemma ppujBlock_crc:
  assumes "ppujBlock pl t mt = Inr r" "pl ! 6 AND 1 \<noteq> 0"
  shows "crc32 (subarray pl 0 (nat (12 + readU32BE pl 8))) =
         word_of_int (readU32BE pl (nat (12 + readU32BE pl 8)))"
  using assms by (auto simp: ppujBlock_def Let_def split: if_splits)

lemma ppujBlock_mismatch:
  assumes "pl ! 6 AND 1 \<noteq> 0" "pl ! 6 AND 4 = 0" "12 + readU32BE pl 8 + 4 = int (length pl)"
      and "t + readU32BE pl 8 \<le> mt"
      and "crc32 (subarray pl 0 (nat (12 + readU32BE pl 8))) \<noteq>
           word_of_int (readU32BE pl (nat (12 + readU32BE pl 8)))"
  shows "ppujBlock pl t mt = Inl CrcMismatch"
  using assms by (auto simp: ppujBlock_def Let_def)

text \<open>The step of the parse over an APP15 segment whose payload starts with the magic.\<close>
lemma parseBody_ppuj:
  assumes u8: "u8 = pre @ app15Segment pl @ rest"
      and p: "p \<le> length pre" and fill: "\<forall>i. p \<le> i \<and> i < length pre \<longrightarrow> u8 ! i = 0xFF"
      and fits: "length pl + 2 \<le> 0xFFFF" and long: "12 \<le> length pl"
      and magic: "take 4 pl = [0x50, 0x50, 0x55, 0x4a]"
  shows "parseBody u8 mt (p, t, bs) =
           (case ppujBlock pl t mt of
              Inl e \<Rightarrow> Inl e
            | Inr (b, tot) \<Rightarrow> Inr (Continue (length pre + 4 + length pl, tot, bs @ [b])))"
proof -
  define q where "q = length pre"
  have u8': "u8 = pre @ 0xFF # 0xEF # (writeU16BE (length pl + 2) @ pl @ rest)"
    by (simp add: u8 app15Segment_def)
  note mk = skipFill_to_marker [OF u8' _ p fill]
  have sk: "skipFill u8 p = q + 1" and u0: "u8 ! p = 0xFF" and pl: "p < length u8"
    and u1: "u8 ! (q + 1) = 0xEF"
    using mk by (simp_all add: q_def)
  have lu: "q + 4 + length pl \<le> length u8" by (simp add: u8 q_def)
  have "u8 = (pre @ [0xFF, 0xEF]) @ writeU16BE (length pl + 2) @ (pl @ rest)"
    by (simp add: u8 app15Segment_def)
  then have "readU16BE u8 (q + 2) = length pl + 2"
    using readU16BE_write [of "length pl + 2" "pre @ [0xFF, 0xEF]" "pl @ rest"] fits
    by (simp add: q_def)
  then have rd: "readU16BE u8 (Suc (Suc q)) = length pl + 2" by simp
  have "subarray u8 (q + 4) (q + 4 + length pl) = pl"
    by (simp add: subarray_def u8 q_def app15Segment_def)
  then have sub: "subarray u8 (Suc (Suc (Suc (Suc q)))) (Suc (Suc (q + (length pl + 2)))) = pl"
    by (simp add: numeral_eq_Suc add.commute)
  have m: "pl ! 0 = 0x50" "pl ! Suc 0 = 0x50" "pl ! 2 = 0x55" "pl ! 3 = 0x4a"
  proof -
    have "pl ! i = take 4 pl ! i" if "i < 4" for i using that by simp
    from this [of 0] this [of 1] this [of 2] this [of 3] magic
    show "pl ! 0 = 0x50" "pl ! Suc 0 = 0x50" "pl ! 2 = 0x55" "pl ! 3 = 0x4a"
      by simp_all
  qed
  show ?thesis
    using u0 u1 lu sk rd sub m long
    by (simp add: parseBody_def Let_def q_def [symmetric] split: sum.splits)
qed

lemmas jpeg_eval = parseCartridge_def parseWalk.simps parseBody_def ppujBlock_def splicePoint_def
  sosWalk.simps sosBody_def injectBeforeSOS_def skipFill.simps readU16BE_def readU32BE_def
  subarray_def Let_def

lemma crcByte_unfold:
  "crcByte c b = crcBit (crcBit (crcBit (crcBit (crcBit (crcBit (crcBit (crcBit (c XOR ucast b))))))))"
  by (simp add: crcByte_def eval_nat_numeral)

lemmas crc_eval = crc32_def crcByte_unfold crcBit_def

text \<open>
  What the block decoder compares. At an APP15 segment whose payload \<open>pl\<close> starts with the
  magic and has the CRC bit set, with \<open>n\<close> the value \<open>readU32BE\<close> returns for the length
  field (a signed 32-bit value), a difference between the CRC32 of \<open>pl[0 .. 12+n)\<close> and the
  four bytes at offset \<open>12+n\<close> makes the whole parse return an error. For a length field
  below \<open>2^31\<close> the span \<open>pl[0 .. 12+n)\<close> is the magic through the payload; the instance
  is such a block with a changed checksum byte.
\<close>
lemma parseCartridge_checks_crc:
  assumes reach: "parseReaches u8 maxTotal (p, t, bs)"
      and u8: "u8 = pre @ app15Segment pl @ rest"
      and p: "p \<le> length pre" and fill: "\<forall>i. p \<le> i \<and> i < length pre \<longrightarrow> u8 ! i = 0xFF"
      and fits: "length pl + 2 \<le> 0xFFFF" and long: "12 \<le> length pl"
      and magic: "take 4 pl = [0x50, 0x50, 0x55, 0x4a]"
      and crcbit: "pl ! 6 AND 1 \<noteq> 0"
  shows "(crc32 (subarray pl 0 (nat (12 + readU32BE pl 8))) \<noteq>
            word_of_int (readU32BE pl (nat (12 + readU32BE pl 8))) \<longrightarrow>
          (\<exists>e. parseCartridge u8 maxTotal = Inl e)) \<and>
         (crc32 (subarray pl 0 (nat (12 + readU32BE pl 8))) \<noteq>
            word_of_int (readU32BE pl (nat (12 + readU32BE pl 8))) \<and>
          pl ! 6 AND 4 = 0 \<and> 12 + readU32BE pl 8 + 4 = int (length pl) \<and>
          t + readU32BE pl 8 \<le> maxTotal \<longrightarrow>
          parseCartridge u8 maxTotal = Inl CrcMismatch) \<and>
         (\<forall>blocks. parseCartridge u8 maxTotal = Inr blocks \<longrightarrow>
            crc32 (subarray pl 0 (nat (12 + readU32BE pl 8))) =
              word_of_int (readU32BE pl (nat (12 + readU32BE pl 8))))"
proof -
  have lt: "p < length u8" using p by (simp add: u8)
  have body: "parseBody u8 maxTotal (p, t, bs) =
           (case ppujBlock pl t maxTotal of
              Inl e \<Rightarrow> Inl e
            | Inr (b, tot) \<Rightarrow> Inr (Continue (length pre + 4 + length pl, tot, bs @ [b])))"
    using u8 p fill fits long magic by (rule parseBody_ppuj)
  have res: "parseCartridge u8 maxTotal = parseWalk u8 maxTotal (p, t, bs)"
    using reach by (rule parseReaches_result)
  have err: "parseCartridge u8 maxTotal = Inl e" if "ppujBlock pl t maxTotal = Inl e" for e
    using that lt body res by (subst (asm) parseWalk.simps) simp
  have ok: "crc32 (subarray pl 0 (nat (12 + readU32BE pl 8))) =
              word_of_int (readU32BE pl (nat (12 + readU32BE pl 8)))"
    if "parseCartridge u8 maxTotal = Inr blocks" for blocks
  proof (cases "ppujBlock pl t maxTotal")
    case (Inl e)
    with err that show ?thesis by simp
  next
    case (Inr r)
    then show ?thesis using crcbit by (rule ppujBlock_crc)
  qed
  have fail: "\<exists>e. parseCartridge u8 maxTotal = Inl e"
    if "crc32 (subarray pl 0 (nat (12 + readU32BE pl 8))) \<noteq>
          word_of_int (readU32BE pl (nat (12 + readU32BE pl 8)))"
    using that ok by (cases "parseCartridge u8 maxTotal") auto
  show ?thesis
    using fail ok err [OF ppujBlock_mismatch [OF crcbit]] by blast
qed

lemma parseCartridge_checks_crc_instance:
  "parseReaches ([0xFF, 0xD8] @ app15Segment badCrcBlock @ [0xFF, 0xDA, 0, 2]) 8388608 (2, 0, []) \<and>
   crc32 (subarray badCrcBlock 0 (nat (12 + readU32BE badCrcBlock 8))) \<noteq>
     word_of_int (readU32BE badCrcBlock (nat (12 + readU32BE badCrcBlock 8))) \<and>
   parseCartridge ([0xFF, 0xD8] @ app15Segment badCrcBlock @ [0xFF, 0xDA, 0, 2]) 8388608 =
     Inl CrcMismatch"
proof -
  have reach: "parseReaches ([0xFF, 0xD8] @ app15Segment badCrcBlock @ [0xFF, 0xDA, 0, 2]) 8388608 (2, 0, [])"
    by (rule parseReaches.start) (simp add: app15Segment_def)
  have n: "readU32BE badCrcBlock 8 = 5"
    by (simp add: readU32BE_def)
  have bad: "crc32 (subarray badCrcBlock 0 (nat (12 + readU32BE badCrcBlock 8))) \<noteq>
     word_of_int (readU32BE badCrcBlock (nat (12 + readU32BE badCrcBlock 8)))"
    unfolding n by (simp add: subarray_def crc_eval readU32BE_def)
  have "parseCartridge ([0xFF, 0xD8] @ app15Segment badCrcBlock @ [0xFF, 0xDA, 0, 2]) 8388608 =
     Inl CrcMismatch"
    using parseCartridge_checks_crc [OF reach refl] bad n
    by simp
  with reach bad show ?thesis by blast
qed

section \<open>Claims about the cartridge container\<close>

text \<open>
  C2. Round trip. Let the base image be one \<open>injectBeforeSOS\<close> accepts (\<open>splicePoint\<close> finds
  the start-of-scan marker at offset \<open>s\<close>) and in which \<open>parseCartridge\<close> finds no block, let
  every built block fit an APP15 segment (length plus the 2-byte length field at most
  65535), and let the payload sizes add up to at most \<open>maxTotal\<close>. Then splicing succeeds,
  parsing the output returns the blocks of the arguments, in order and field for field
  (version, blockType, flags, payload), and the output agrees with the base image on the
  \<open>s\<close> bytes before the splice point. For versions and types that are bytes the returned
  fields are the arguments' own values.
\<close>
theorem splice_extract_roundtrip:
  assumes valid: "splicePoint base = Inr s"
      and clean: "parseCartridge base mt0 = Inr []"
      and fits: "\<forall>a \<in> set args. length (buildApp15Block a) + 2 \<le> 0xFFFF"
      and total: "(\<Sum>a\<leftarrow>args. int (length (argPayload a))) \<le> maxTotal"
  shows "(\<exists>out. injectBeforeSOS base (map buildApp15Block args) = Inr out \<and>
           parseCartridge out maxTotal = Inr (map decoded args) \<and>
           take s out = take s base) \<and>
         ((\<forall>a \<in> set args. 0 \<le> argVersion a \<and> argVersion a < 256 \<and>
                           0 \<le> argBlockType a \<and> argBlockType a < 256) \<longrightarrow>
          map (\<lambda>b. (uint (version b), uint (blockType b), flags b, payload b)) (map decoded args) =
          map (\<lambda>a. (argVersion a, argBlockType a, flagByte a, argPayload a)) args)"
proof -
  define X where "X = concat (map blockSegment args)"
  define out where "out = take s base @ X @ drop s base"
  from valid have hdr: "4 \<le> length base" "base ! 0 = 0xFF" "base ! 1 = 0xD8"
    and walk: "sosWalk base 2 = Inr s"
    by (auto simp: splicePoint_def split: if_splits)
  from clean hdr have cleanw: "parseWalk base mt0 (2, 0, []) = Inr []"
    by (simp add: parseCartridge_def)
  from sosWalk_result [OF walk] have s2: "2 \<le> s" and sl: "s + 1 < length base"
    and bs: "base ! s = 0xFF" and bs1: "base ! (s + 1) = 0xDA" by simp_all
  have segs: "app15Segments (map buildApp15Block args) = Inr (map app15Segment (map buildApp15Block args))"
    using fits by (intro app15Segments_ok) auto
  have "map app15Segment (map buildApp15Block args) = map blockSegment args"
    by (induction args) (simp_all add: blockSegment_def)
  then have "concat (map app15Segment (map buildApp15Block args)) = X"
    by (simp only: X_def)
  with valid segs have inj: "injectBeforeSOS base (map buildApp15Block args) = Inr out"
    by (simp add: injectBeforeSOS_def out_def)
  have lt: "length (take s base) = s" using sl by simp
  have agree: "\<forall>i. i < s \<longrightarrow> out ! i = base ! i"
    using sl by (simp add: out_def nth_append)
  have lout: "length out = length base + length X"
    using sl by (simp add: out_def)
  have d0: "drop s base ! 0 = 0xFF" and d1: "drop s base ! 1 = 0xDA"
    using sl bs bs1 by simp_all
  have os: "out ! s = 0xFF"
  proof (cases args)
    case Nil
    then show ?thesis using d0 lt by (simp add: out_def X_def nth_append)
  next
    case (Cons a rest)
    then have "X ! 0 = 0xFF" "X \<noteq> []"
      using blockSegment_head [of a] by (simp_all add: X_def nth_append)
    then show ?thesis using lt by (simp add: out_def nth_append)
  qed
  have "parseCartridge out maxTotal = parseWalk out maxTotal (2, 0, [])"
    using hdr agree s2 lout by (simp add: parseCartridge_def)
  also have "\<dots> = parseWalk out maxTotal (s, 0, [])"
    using walk cleanw agree _ os by (rule parseWalk_to_splice) (use lout sl in simp)
  also have "\<dots> = parseWalk out maxTotal (s + length X,
      0 + (\<Sum>a\<leftarrow>args. int (length (argPayload a))), [] @ map decoded args)"
    using parseWalk_built [OF fits, of 0 maxTotal "take s base" "drop s base" "[]"] total sl
    by (simp add: out_def X_def min_absorb2)
  also have "\<dots> = Inr ([] @ map decoded args)"
  proof (rule parseWalk_at_SOS)
    show "s + length X + 1 < length out" using lout sl by simp
    show "out ! (s + length X) = 0xFF"
      using d0 lt by (simp add: out_def nth_append)
    show "out ! (s + length X + 1) = 0xDA"
      using d1 lt by (simp add: out_def nth_append)
  qed
  finally have "parseCartridge out maxTotal = Inr (map decoded args)" by simp
  moreover have "take s out = take s base" using lt by (simp add: out_def)
  moreover have "uint (word_of_int k :: u8) = k" if "0 \<le> k" "k < 256" for k
    using that by (simp add: uint_word_of_int take_bit_int_eq_self)
  then have "map (\<lambda>b. (uint (version b), uint (blockType b), flags b, payload b)) (map decoded args) =
          map (\<lambda>a. (argVersion a, argBlockType a, flagByte a, argPayload a)) args"
    if "\<forall>a \<in> set args. 0 \<le> argVersion a \<and> argVersion a < 256 \<and>
                         0 \<le> argBlockType a \<and> argBlockType a < 256"
    using that by (simp add: decoded_def)
  ultimately show ?thesis using inj by blast
qed

theorem splice_extract_roundtrip_witness:
  "splicePoint tinyJpeg = Inr 9 \<and> parseCartridge tinyJpeg 8388608 = Inr [] \<and>
   (\<exists>out. injectBeforeSOS tinyJpeg (map buildApp15Block [bytecodeArgs, bytecodeArgs\<lparr> argCrc := False \<rparr>])
            = Inr out \<and>
          parseCartridge out 8388608 =
            Inr [\<lparr> version = 1, blockType = 2, flags = 1, payload = [0x40, 1, 0x40, 2, 1] \<rparr>,
                 \<lparr> version = 1, blockType = 2, flags = 0, payload = [0x40, 1, 0x40, 2, 1] \<rparr>] \<and>
          take 9 out = take 9 tinyJpeg)"
proof -
  have v: "splicePoint tinyJpeg = Inr 9"
    by (simp add: jpeg_eval)
  have c: "parseCartridge tinyJpeg 8388608 = Inr []"
    by (simp add: jpeg_eval)
  have f: "\<forall>a \<in> set [bytecodeArgs, bytecodeArgs\<lparr> argCrc := False \<rparr>].
             length (buildApp15Block a) + 2 \<le> 0xFFFF"
    by (simp add: length_buildApp15Block)
  have t: "(\<Sum>a\<leftarrow>[bytecodeArgs, bytecodeArgs\<lparr> argCrc := False \<rparr>]. int (length (argPayload a)))
             \<le> 8388608"
    by simp
  from splice_extract_roundtrip [OF v c f t] v c show ?thesis
    by (simp add: decoded_def flagByte_def)
qed

text \<open>
  C3 (defect in the code). \<open>readU32BE\<close> returns a signed 32-bit value (the last operation
  of its expression is \<open>|\<close>), so the length field \<open>FF FF FF FF\<close> is read as \<open>-1\<close>. For the
  15-byte payload \<open>signedLenBlock\<close>, with the CRC bit set, the length check
  \<open>12 + (-1) + 4 = 15\<close> passes, the checksum is computed over the first 11 bytes only and
  compared with the bytes at offset 11, which overlap the length field. \<open>parseCartridge\<close>
  returns a block on the image \<open>signedLenJpeg\<close>, although the CRC32 of the bytes from the
  magic through the (empty) payload, the 12 header bytes, is \<open>0xA5FA9DA1\<close>, only three
  bytes follow the header, and the last four bytes of the segment are \<open>FF 42 BA FE\<close>. (Read
  as unsigned, the length field asks for a payload of \<open>2^32 - 1\<close> bytes, which the segment
  does not hold.) The header comment of the source states that the CRC32 covers the bytes
  from the magic through the payload, and \<open>buildApp15Block\<close> writes it over that span.
\<close>
theorem signed_length_field_escapes_crc:
  "signedLenJpeg = [0xFF, 0xD8] @ app15Segment signedLenBlock @ [0xFF, 0xDA] \<and>
   readU32BE signedLenBlock 8 = - 1 \<and>
   parseCartridge signedLenJpeg 8388608 =
     Inr [\<lparr> version = 0, blockType = 0x38, flags = 1, payload = [] \<rparr>] \<and>
   crc32 (subarray signedLenBlock 0 11) = 0xFF42BAFE \<and>
   crc32 (subarray signedLenBlock 0 12) = 0xA5FA9DA1 \<and>
   subarray signedLenBlock 11 15 = [0xFF, 0x42, 0xBA, 0xFE] \<and>
   crc32 (subarray signedLenBlock 0 12) \<noteq> word_of_int (readU32BE signedLenBlock 11)"
  by (simp add: jpeg_eval crc_eval app15Segment_def writeU16BE_def)

theorem signed_length_field_escapes_crc_witness:
  "4 \<le> length signedLenJpeg \<and> signedLenJpeg ! 0 = 0xFF \<and> signedLenJpeg ! 1 = 0xD8 \<and>
   parseCartridge signedLenJpeg 8388608 \<noteq> Inl CrcMismatch \<and>
   map flags (case parseCartridge signedLenJpeg 8388608 of Inl e \<Rightarrow> [] | Inr bs \<Rightarrow> bs) = [1]"
  using signed_length_field_escapes_crc by simp

text \<open>
  C4 (as stated, refuted). On an image whose end-of-image marker comes before any
  start-of-scan marker, \<open>injectBeforeSOS\<close> fails but \<open>parseCartridge\<close> does not: its walk
  leaves the loop at \<open>FF D9\<close> as it does at \<open>FF DA\<close> and returns the blocks found so far,
  here one block.
\<close>
theorem eoi_before_sos_counterexample:
  "injectBeforeSOS [0xFF, 0xD8, 0xFF, 0xEF, 0x00, 0x0E, 0x50, 0x50, 0x55, 0x4a, 1, 2, 0, 0,
                    0, 0, 0, 0, 0xFF, 0xD9] [] = Inl UnexpectedEOI \<and>
   parseCartridge [0xFF, 0xD8, 0xFF, 0xEF, 0x00, 0x0E, 0x50, 0x50, 0x55, 0x4a, 1, 2, 0, 0,
                   0, 0, 0, 0, 0xFF, 0xD9] 8388608 =
     Inr [\<lparr> version = 1, blockType = 2, flags = 0, payload = [] \<rparr>]"
  by (simp add: jpeg_eval)

text \<open>
  C4 (amended). When the walk meets the end-of-image marker (after any fill bytes) before
  a start-of-scan marker, \<open>injectBeforeSOS\<close> fails with \<open>UnexpectedEOI\<close>, whereas
  \<open>parseCartridge\<close> ends its walk there and returns the blocks extracted up to that
  point, without an error.
\<close>
theorem eoi_before_sos:
  assumes u8: "u8 = pre @ [0xFF, 0xD9] @ rest"
      and p: "p \<le> length pre" and fill: "\<forall>i. p \<le> i \<and> i < length pre \<longrightarrow> u8 ! i = 0xFF"
  shows "(sosReaches u8 p \<longrightarrow> injectBeforeSOS u8 appPayloads = Inl UnexpectedEOI) \<and>
         (parseReaches u8 maxTotal (p, t, bs) \<longrightarrow> parseCartridge u8 maxTotal = Inr bs)"
proof -
  have u8': "u8 = pre @ 0xFF # 0xD9 # rest" by (simp add: u8)
  note mk = skipFill_to_marker [OF u8' _ p fill]
  have sk: "skipFill u8 p = length pre + 1" and u0: "u8 ! p = 0xFF" and lt: "p < length u8"
    and u1: "u8 ! (length pre + 1) = 0xD9"
    using mk by simp_all
  have l: "length pre + 1 < length u8" by (simp add: u8)
  have "sosBody u8 p = Inl UnexpectedEOI"
    using sk u0 u1 l by (simp add: sosBody_def Let_def)
  with lt have sw: "sosWalk u8 p = Inl UnexpectedEOI"
    by (subst sosWalk.simps) simp
  have "parseBody u8 maxTotal (p, t, bs) = Inr (Break (length pre + 2, t, bs))"
    using sk u0 u1 l by (simp add: parseBody_def Let_def)
  with lt have pw: "parseWalk u8 maxTotal (p, t, bs) = Inr bs"
    by (subst parseWalk.simps) simp
  show ?thesis
    using sw pw sosReaches_result [of u8 p] parseReaches_result [of u8 maxTotal "(p, t, bs)"]
    by (auto simp: injectBeforeSOS_def)
qed

theorem eoi_before_sos_witness:
  "sosReaches ([0xFF, 0xD8] @ [0xFF, 0xD9] @ [0xFF, 0xDA]) 2 \<and>
   parseReaches ([0xFF, 0xD8] @ [0xFF, 0xD9] @ [0xFF, 0xDA]) 8388608 (2, 0, []) \<and>
   injectBeforeSOS ([0xFF, 0xD8] @ [0xFF, 0xD9] @ [0xFF, 0xDA]) [] = Inl UnexpectedEOI \<and>
   parseCartridge ([0xFF, 0xD8] @ [0xFF, 0xD9] @ [0xFF, 0xDA]) 8388608 = Inr []"
proof -
  have a: "sosReaches ([0xFF, 0xD8] @ [0xFF, 0xD9] @ [0xFF, 0xDA]) 2"
    by (rule sosReaches.start) simp
  have b: "parseReaches ([0xFF, 0xD8] @ [0xFF, 0xD9] @ [0xFF, 0xDA]) 8388608 (2, 0, [])"
    by (rule parseReaches.start) simp
  have c: "(2::nat) \<le> length [0xFF, 0xD8 :: u8]" by simp
  have d: "\<forall>i. 2 \<le> i \<and> i < length [0xFF, 0xD8 :: u8] \<longrightarrow>
             ([0xFF, 0xD8] @ [0xFF, 0xD9] @ [0xFF, 0xDA :: u8]) ! i = 0xFF" by simp
  from eoi_before_sos [OF refl c d, of "[]" 8388608 0 "[]"] a b show ?thesis by blast
qed

end
